theory Spec2Isabelle
  imports Main
begin

section \<open>Strings\<close>

text \<open>
  A JavaScript string is modelled as a \<^typ>\<open>string\<close>: the list of its code units, for
  texts whose code units are all below 256. Every function of this section is total,
  as the string method it stands for is.
\<close>

definition newline :: char where
  "newline = CHR 0x0A"

definition backslash :: char where
  "backslash = CHR 0x5C"

text \<open>\<^verbatim>\<open>s.startsWith(p)\<close>.\<close>

fun startsWith :: "string \<Rightarrow> string \<Rightarrow> bool" where
  "startsWith s [] = True"
| "startsWith [] (p # ps) = False"
| "startsWith (c # cs) (p # ps) = (c = p \<and> startsWith cs ps)"

text \<open>\<^verbatim>\<open>s.substring(1)\<close>: the string without its first code unit, empty for the empty string.\<close>

definition substring1 :: "string \<Rightarrow> string" where
  "substring1 s = drop 1 s"

text \<open>
  White space and line terminators of ECMAScript below 256: TAB, LF, VT, FF, CR, SP and
  NBSP. They are what \<^verbatim>\<open>trim\<close> strips and what \<^verbatim>\<open>\s\<close> matches.
\<close>

definition is_space :: "char \<Rightarrow> bool" where
  "is_space c = (c = CHR 0x09 \<or> c = CHR 0x0A \<or> c = CHR 0x0B \<or> c = CHR 0x0C
     \<or> c = CHR 0x0D \<or> c = CHR 0x20 \<or> c = CHR 0xA0)"

definition is_digit :: "char \<Rightarrow> bool" where
  "is_digit c = ((48::nat) \<le> of_char c \<and> of_char c \<le> (57::nat))"

definition is_word :: "char \<Rightarrow> bool" where
  "is_word c = (((97::nat) \<le> of_char c \<and> of_char c \<le> (122::nat))
     \<or> ((65::nat) \<le> of_char c \<and> of_char c \<le> (90::nat))
     \<or> is_digit c \<or> c = CHR ''_'')"

text \<open>Line terminators below 256: what \<^verbatim>\<open>.\<close> does not match.\<close>

definition is_line_terminator :: "char \<Rightarrow> bool" where
  "is_line_terminator c = (c = CHR 0x0A \<or> c = CHR 0x0D)"

definition trim :: "string \<Rightarrow> string" where
  "trim s = rev (dropWhile is_space (rev (dropWhile is_space s)))"

text \<open>
  \<^verbatim>\<open>s.split('\n')\<close>: the pieces between line feeds; the empty string gives one empty
  piece, and a text that ends in a line feed gives a last empty piece. \<open>split_from\<close>
  reads the text from the left, with the piece it is in (reversed).
\<close>

fun split_from :: "string \<Rightarrow> string \<Rightarrow> string list" where
  "split_from piece [] = [rev piece]"
| "split_from piece (c # cs) =
     (if c = newline then rev piece # split_from [] cs else split_from (c # piece) cs)"

definition split_nl :: "string \<Rightarrow> string list" where
  "split_nl s = split_from [] s"

section \<open>Regular expressions\<close>

text \<open>
  The abstract syntax of the ECMAScript regular expressions the program uses, and their
  backtracking semantics (ECMAScript 2023, 22.2.2), in continuation-passing style as in
  the standard: a matcher takes the continuation that matches the rest of the pattern.
\<close>

datatype citem =
    CChar char
  | CRange char char
  | CDigit | CNotDigit
  | CSpace | CNotSpace
  | CWord | CNotWord

datatype regex =
    Eps
  | Chr char
  | Dot
  | Cls bool "citem list"
  | Bol
  | Eol
  | WordB bool
  | Seq regex regex
  | Alt regex regex
  | Star bool regex
  | Plus regex
  | Opt regex
  | Grp nat regex
  | Ahead regex

text \<open>
  \<open>Cls neg items\<close> is a character class, negated when \<open>neg\<close>; \<open>Star greedy r\<close> is
  \<^verbatim>\<open>r*\<close> when \<open>greedy\<close> and \<^verbatim>\<open>r*?\<close> otherwise; \<open>Plus\<close> and \<open>Opt\<close> are the greedy
  \<^verbatim>\<open>r+\<close> and \<^verbatim>\<open>r?\<close>; \<open>Grp n r\<close> is the capturing group number \<open>n\<close> (a non-capturing
  group is its body); \<open>Ahead r\<close> is the lookahead \<^verbatim>\<open>(?=r)\<close>; \<open>WordB True\<close> is \<^verbatim>\<open>\b\<close>
  and \<open>WordB False\<close> is \<^verbatim>\<open>\B\<close>.
\<close>

text \<open>
  Canonicalize of 22.2.2.7.3 without the unicode flag: with \<^verbatim>\<open>/i\<close> a character is
  compared by its upper case; below 256 the letters with an upper case below 256 are
  a-z and 0xE0-0xFE without 0xF7.
\<close>

definition canonicalize :: "bool \<Rightarrow> char \<Rightarrow> char" where
  "canonicalize ic c =
     (let n = (of_char c :: nat) in
      if ic \<and> ((97 \<le> n \<and> n \<le> 122) \<or> (224 \<le> n \<and> n \<le> 254 \<and> n \<noteq> 247))
      then char_of (n - 32) else c)"

fun citem_has :: "citem \<Rightarrow> char \<Rightarrow> bool" where
  "citem_has (CChar a) c = (c = a)"
| "citem_has (CRange lo hi) c = ((of_char lo :: nat) \<le> of_char c \<and> (of_char c :: nat) \<le> of_char hi)"
| "citem_has CDigit c = is_digit c"
| "citem_has CNotDigit c = (\<not> is_digit c)"
| "citem_has CSpace c = is_space c"
| "citem_has CNotSpace c = (\<not> is_space c)"
| "citem_has CWord c = is_word c"
| "citem_has CNotWord c = (\<not> is_word c)"

text \<open>
  Membership in a class. Without \<^verbatim>\<open>/i\<close> it is membership in one of the items; with
  \<^verbatim>\<open>/i\<close> some member of the class has the canonical form of the character, which below
  256 is the case when the character, its upper case or its lower case is a member.
\<close>

definition lower_of :: "char \<Rightarrow> char" where
  "lower_of c =
     (let n = (of_char c :: nat) in
      if (65 \<le> n \<and> n \<le> 90) \<or> (192 \<le> n \<and> n \<le> 222 \<and> n \<noteq> 215)
      then char_of (n + 32) else c)"

definition class_has :: "bool \<Rightarrow> citem list \<Rightarrow> char \<Rightarrow> bool" where
  "class_has ic items c =
     (if ic then (\<exists>i \<in> set items. citem_has i c \<or> citem_has i (canonicalize True c)
                                  \<or> citem_has i (lower_of c))
      else (\<exists>i \<in> set items. citem_has i c))"

text \<open>
  The state of a match: the consumed input (reversed), the input still to match, and
  the captures. A continuation takes a state to the final state of a successful match,
  or to \<open>None\<close>.
\<close>

type_synonym captures = "nat \<Rightarrow> string option"
type_synonym mstate = "string \<times> string \<times> captures"
type_synonym cont = "mstate \<Rightarrow> mstate option"

definition remaining :: "mstate \<Rightarrow> string" where
  "remaining st = fst (snd st)"

text \<open>One character that satisfies \<open>P\<close>.\<close>

definition one_char :: "(char \<Rightarrow> bool) \<Rightarrow> cont \<Rightarrow> cont" where
  "one_char P k st =
     (case st of (pre, rest, caps) \<Rightarrow>
        (case rest of [] \<Rightarrow> None
         | x # xs \<Rightarrow> if P x then k (x # pre, xs, caps) else None))"

text \<open>
  RepeatMatcher of 22.2.2.3.1 for \<^verbatim>\<open>*\<close> (min 0, no max): an iteration that consumes
  nothing is rejected, so each iteration shortens the remaining input, which is why the
  repetition terminates. Greedy: one more iteration first, then the continuation; lazy:
  the continuation first.
\<close>

function star :: "bool \<Rightarrow> (cont \<Rightarrow> cont) \<Rightarrow> cont \<Rightarrow> cont" where
  "star greedy body k st =
     (if greedy then
        (case body (\<lambda>st'. if length (remaining st') < length (remaining st)
                           then star greedy body k st' else None) st of
           Some r \<Rightarrow> Some r
         | None \<Rightarrow> k st)
      else
        (case k st of
           Some r \<Rightarrow> Some r
         | None \<Rightarrow> body (\<lambda>st'. if length (remaining st') < length (remaining st)
                                then star greedy body k st' else None) st))"
  by pat_completeness auto
termination
  by (relation "measure (\<lambda>(g, b, k, st). length (remaining st))") auto

text \<open>
  The test of \<^verbatim>\<open>\b\<close>: IsWordChar differs at the two sides of the current position,
  the last consumed character and the next one.
\<close>

definition word_boundary :: "mstate \<Rightarrow> bool" where
  "word_boundary st =
     (case st of (pre, rest, caps) \<Rightarrow>
        ((case pre of [] \<Rightarrow> False | a # _ \<Rightarrow> is_word a)
           \<noteq> (case rest of [] \<Rightarrow> False | b # _ \<Rightarrow> is_word b)))"

text \<open>
  The matcher of a pattern, \<open>ic\<close> the ignoreCase flag. Neither multiline nor dotAll is
  set anywhere in the program, so \<^verbatim>\<open>^\<close> and \<^verbatim>\<open>$\<close> are the two ends of the input and
  \<^verbatim>\<open>.\<close> is any character but a line terminator. A capture is the text its group
  matched last; the standard also clears the captures of a repeated group at each
  iteration, which changes no result here: the program reads a capture only of a
  group that is not repeated, and there are no backreferences.
\<close>

primrec m :: "regex \<Rightarrow> bool \<Rightarrow> cont \<Rightarrow> cont" where
  "m Eps ic k st = k st"
| "m (Chr a) ic k st = one_char (\<lambda>c. canonicalize ic c = canonicalize ic a) k st"
| "m Dot ic k st = one_char (\<lambda>c. \<not> is_line_terminator c) k st"
| "m (Cls neg items) ic k st = one_char (\<lambda>c. class_has ic items c \<noteq> neg) k st"
| "m Bol ic k st = (if fst st = [] then k st else None)"
| "m Eol ic k st = (if remaining st = [] then k st else None)"
| "m (WordB b) ic k st = (if word_boundary st = b then k st else None)"
| "m (Seq r1 r2) ic k st = m r1 ic (m r2 ic k) st"
| "m (Alt r1 r2) ic k st =
     (case m r1 ic k st of Some r \<Rightarrow> Some r | None \<Rightarrow> m r2 ic k st)"
| "m (Star greedy r) ic k st = star greedy (m r ic) k st"
| "m (Plus r) ic k st = m r ic (star True (m r ic) k) st"
| "m (Opt r) ic k st =
     (case m r ic (\<lambda>st'. if length (remaining st') < length (remaining st)
                          then k st' else None) st of
        Some r \<Rightarrow> Some r
      | None \<Rightarrow> k st)"
| "m (Grp n r) ic k st =
     m r ic (\<lambda>st'. case st' of (pre', rest', caps') \<Rightarrow>
               k (pre', rest',
                  caps'(n \<mapsto> take (length (remaining st) - length rest') (remaining st)))) st"
| "m (Ahead r) ic k st =
     (case m r ic Some st of
        None \<Rightarrow> None
      | Some st' \<Rightarrow> k (fst st, remaining st, snd (snd st')))"

text \<open>
  \<^verbatim>\<open>RegExp.prototype.exec\<close> of a regular expression without the global and sticky
  flags: the match at the leftmost start position that has one. The result is the
  input before the match (reversed) and the final state of the match.
\<close>

fun exec_from :: "bool \<Rightarrow> regex \<Rightarrow> string \<Rightarrow> string \<Rightarrow> (string \<times> mstate) option" where
  "exec_from ic re pre [] =
     (case m re ic Some (pre, [], Map.empty) of
        Some st \<Rightarrow> Some (pre, st)
      | None \<Rightarrow> None)"
| "exec_from ic re pre (c # cs) =
     (case m re ic Some (pre, c # cs, Map.empty) of
        Some st \<Rightarrow> Some (pre, st)
      | None \<Rightarrow> exec_from ic re (c # pre) cs)"

definition regex_exec :: "bool \<Rightarrow> regex \<Rightarrow> string \<Rightarrow> (string \<times> mstate) option" where
  "regex_exec ic re s = exec_from ic re [] s"

text \<open>\<^verbatim>\<open>re.test(s)\<close>.\<close>

definition regex_test :: "bool \<Rightarrow> regex \<Rightarrow> string \<Rightarrow> bool" where
  "regex_test ic re s = (regex_exec ic re s \<noteq> None)"

text \<open>
  \<^verbatim>\<open>s.match(re)\<close> for a regular expression without the global flag: \<^verbatim>\<open>null\<close> (here
  \<open>None\<close>) when there is no match, and otherwise the array of the leftmost match, whose
  entry \<open>n\<close> is the capture of the group \<open>n\<close>, or \<^verbatim>\<open>undefined\<close> (here \<open>None\<close>) when that
  group took no part in the match.
\<close>

definition regex_match :: "bool \<Rightarrow> regex \<Rightarrow> string \<Rightarrow> captures option" where
  "regex_match ic re s =
     (case regex_exec ic re s of
        None \<Rightarrow> None
      | Some (pre, st) \<Rightarrow> Some (snd (snd st)))"

text \<open>
  \<^verbatim>\<open>s.replace(re, '')\<close> for a regular expression without the global flag: the leftmost
  match is removed, and a string without a match is returned as it is.
\<close>

definition replace_first_empty :: "bool \<Rightarrow> regex \<Rightarrow> string \<Rightarrow> string" where
  "replace_first_empty ic re s =
     (case regex_exec ic re s of
        None \<Rightarrow> s
      | Some (pre, st) \<Rightarrow> rev pre @ remaining st)"

text \<open>Sequences and alternations of a list of patterns, and a literal word.\<close>

fun seq_list :: "regex list \<Rightarrow> regex" where
  "seq_list [] = Eps"
| "seq_list [r] = r"
| "seq_list (r # rs) = Seq r (seq_list rs)"

fun alt_list :: "regex list \<Rightarrow> regex" where
  "alt_list [] = Eps"
| "alt_list [r] = r"
| "alt_list (r # rs) = Alt r (alt_list rs)"

definition lit :: "string \<Rightarrow> regex" where
  "lit w = seq_list (map Chr w)"

section \<open>Compiling a pattern: \<^verbatim>\<open>new RegExp(source)\<close>\<close>

text \<open>
  \<^verbatim>\<open>new RegExp(source)\<close> parses its source (with no flag, by the grammar of Annex B.1.2)
  and throws a SyntaxError when the source is not a pattern. The model reads: literal
  characters, \<^verbatim>\<open>.\<close>, \<^verbatim>\<open>^\<close>, \<^verbatim>\<open>$\<close>, \<^verbatim>\<open>|\<close>, capturing groups, character classes with
  ranges and negation, the quantifiers \<^verbatim>\<open>*\<close> and \<^verbatim>\<open>+\<close>, the escapes \<^verbatim>\<open>\d \D \s \S \w \W\<close>,
  \<^verbatim>\<open>\b \B\<close>, \<^verbatim>\<open>\n \r \t \f \v\<close> and the identity escapes. Of the rest of the grammar
  it says \<open>Unmodelled\<close>, which is no statement about the program: a braced quantifier
  \<^verbatim>\<open>{n}\<close>, \<^verbatim>\<open>{n,}\<close>, \<^verbatim>\<open>{n,m}\<close>, an escape that starts with a digit, \<^verbatim>\<open>c\<close>, \<^verbatim>\<open>x\<close> or
  \<^verbatim>\<open>u\<close>, and \<^verbatim>\<open>?\<close> (which no source the program builds contains). \<open>TypeError\<close> is
  the exception of a method call on \<^verbatim>\<open>undefined\<close>.
\<close>

datatype error = SyntaxError | TypeError | Unmodelled

datatype token =
    TAtom regex
  | TAssert regex
  | TOpen
  | TClose
  | TBar
  | TStar
  | TPlus

text \<open>
  The atoms of a class body: an unescaped \<^verbatim>\<open>-\<close>, a character (written as it is or
  escaped), a class escape such as \<^verbatim>\<open>\d\<close>.
\<close>

datatype catom = ADash | ALit char | ASet citem

datatype scan_mode =
    Top
  | Esc
  | ClassStart
  | InClass bool "catom list"
  | ClassEsc bool "catom list"

fun catom_item :: "catom \<Rightarrow> citem" where
  "catom_item ADash = CChar (CHR ''-'')"
| "catom_item (ALit c) = CChar c"
| "catom_item (ASet i) = i"

text \<open>
  ClassRanges: \<^verbatim>\<open>a-b\<close> is a range, a SyntaxError when out of order; when one side is a
  class escape, the \<^verbatim>\<open>-\<close> is a character (B.1.2); a \<^verbatim>\<open>-\<close> with nothing after it is
  a character.
\<close>

fun class_ranges :: "catom list \<Rightarrow> error + citem list" where
  "class_ranges (a # ADash # b # rest) =
     (case (catom_item a, catom_item b) of
        (CChar lo, CChar hi) \<Rightarrow>
          (if (of_char lo :: nat) \<le> of_char hi
           then (case class_ranges rest of Inl e \<Rightarrow> Inl e
                 | Inr items \<Rightarrow> Inr (CRange lo hi # items))
           else Inl SyntaxError)
      | (ia, ib) \<Rightarrow>
          (case class_ranges rest of Inl e \<Rightarrow> Inl e
           | Inr items \<Rightarrow> Inr (ia # CChar (CHR ''-'') # ib # items)))"
| "class_ranges (a # rest) =
     (case class_ranges rest of Inl e \<Rightarrow> Inl e
      | Inr items \<Rightarrow> Inr (catom_item a # items))"
| "class_ranges [] = Inr []"

text \<open>
  Whether the text after a \<^verbatim>\<open>{\<close> completes a braced quantifier: digits, then \<^verbatim>\<open>}\<close>,
  or \<^verbatim>\<open>,\<close>, digits (maybe none) and \<^verbatim>\<open>}\<close>. A \<^verbatim>\<open>{\<close> that starts none is a literal
  character (B.1.2, ExtendedPatternCharacter).
\<close>

definition braced_quantifier :: "string \<Rightarrow> bool" where
  "braced_quantifier cs =
     (let ds = takeWhile is_digit cs; r = dropWhile is_digit cs in
      ds \<noteq> [] \<and>
      (case r of
         [] \<Rightarrow> False
       | x # xs \<Rightarrow>
           x = CHR ''}'' \<or>
           (x = CHR '','' \<and> (case dropWhile is_digit xs of [] \<Rightarrow> False | y # _ \<Rightarrow> y = CHR ''}''))))"

text \<open>The escape \<^verbatim>\<open>\c\<close> outside a class, and inside one.\<close>

definition control_escape :: "char \<Rightarrow> char option" where
  "control_escape c =
     (if c = CHR ''n'' then Some (CHR 0x0A)
      else if c = CHR ''r'' then Some (CHR 0x0D)
      else if c = CHR ''t'' then Some (CHR 0x09)
      else if c = CHR ''f'' then Some (CHR 0x0C)
      else if c = CHR ''v'' then Some (CHR 0x0B)
      else None)"

definition class_escape :: "char \<Rightarrow> citem option" where
  "class_escape c =
     (if c = CHR ''d'' then Some CDigit
      else if c = CHR ''D'' then Some CNotDigit
      else if c = CHR ''s'' then Some CSpace
      else if c = CHR ''S'' then Some CNotSpace
      else if c = CHR ''w'' then Some CWord
      else if c = CHR ''W'' then Some CNotWord
      else None)"

definition unmodelled_escape :: "char \<Rightarrow> bool" where
  "unmodelled_escape c = (is_digit c \<or> c = CHR ''c'' \<or> c = CHR ''x'' \<or> c = CHR ''u'')"

definition atom_escape :: "char \<Rightarrow> error + token" where
  "atom_escape c =
     (if unmodelled_escape c then Inl Unmodelled
      else if c = CHR ''b'' then Inr (TAssert (WordB True))
      else if c = CHR ''B'' then Inr (TAssert (WordB False))
      else case class_escape c of
             Some i \<Rightarrow> Inr (TAtom (Cls False [i]))
           | None \<Rightarrow>
               (case control_escape c of
                  Some x \<Rightarrow> Inr (TAtom (Chr x))
                | None \<Rightarrow> Inr (TAtom (Chr c))))"

definition in_class_escape :: "char \<Rightarrow> error + catom" where
  "in_class_escape c =
     (if unmodelled_escape c then Inl Unmodelled
      else if c = CHR ''b'' then Inr (ALit (CHR 0x08))
      else case class_escape c of
             Some i \<Rightarrow> Inr (ASet i)
           | None \<Rightarrow>
               (case control_escape c of
                  Some x \<Rightarrow> Inr (ALit x)
                | None \<Rightarrow> Inr (ALit c)))"

text \<open>
  One step of the scanner: the mode, the character read and the text after it (looked
  at only after a \<^verbatim>\<open>{\<close>) give the next mode and the tokens that are complete.
\<close>

definition step_top :: "char \<Rightarrow> string \<Rightarrow> error + scan_mode \<times> token list" where
  "step_top c cs =
     (if c = backslash then Inr (Esc, [])
      else if c = CHR ''['' then Inr (ClassStart, [])
      else if c = CHR ''('' then Inr (Top, [TOpen])
      else if c = CHR '')'' then Inr (Top, [TClose])
      else if c = CHR ''|'' then Inr (Top, [TBar])
      else if c = CHR ''*'' then Inr (Top, [TStar])
      else if c = CHR ''+'' then Inr (Top, [TPlus])
      else if c = CHR ''?'' then Inl Unmodelled
      else if c = CHR ''{'' \<and> braced_quantifier cs then Inl Unmodelled
      else if c = CHR ''.'' then Inr (Top, [TAtom Dot])
      else if c = CHR ''^'' then Inr (Top, [TAssert Bol])
      else if c = CHR ''$'' then Inr (Top, [TAssert Eol])
      else Inr (Top, [TAtom (Chr c)]))"

definition step_class :: "bool \<Rightarrow> catom list \<Rightarrow> char \<Rightarrow> error + scan_mode \<times> token list" where
  "step_class neg as c =
     (if c = CHR '']'' then
        (case class_ranges as of
           Inl e \<Rightarrow> Inl e
         | Inr items \<Rightarrow> Inr (Top, [TAtom (Cls neg items)]))
      else if c = backslash then Inr (ClassEsc neg as, [])
      else if c = CHR ''-'' then Inr (InClass neg (as @ [ADash]), [])
      else Inr (InClass neg (as @ [ALit c]), []))"

fun step :: "scan_mode \<Rightarrow> char \<Rightarrow> string \<Rightarrow> error + scan_mode \<times> token list" where
  "step Top c cs = step_top c cs"
| "step Esc c cs =
     (case atom_escape c of Inl e \<Rightarrow> Inl e | Inr t \<Rightarrow> Inr (Top, [t]))"
| "step ClassStart c cs =
     (if c = CHR ''^'' then Inr (InClass True [], []) else step_class False [] c)"
| "step (InClass neg as) c cs = step_class neg as c"
| "step (ClassEsc neg as) c cs =
     (case in_class_escape c of
        Inl e \<Rightarrow> Inl e
      | Inr a \<Rightarrow> Inr (InClass neg (as @ [a]), []))"

text \<open>
  The scanner. At the end of the source an open escape (\<^verbatim>\<open>\\<close> at the end of the
  pattern) or an open class (unterminated character class) is a SyntaxError.
\<close>

fun scan :: "scan_mode \<Rightarrow> string \<Rightarrow> error + token list" where
  "scan md [] = (if md = Top then Inr [] else Inl SyntaxError)"
| "scan md (c # cs) =
     (case step md c cs of
        Inl e \<Rightarrow> Inl e
      | Inr (md', ts) \<Rightarrow>
          (case scan md' cs of
             Inl e \<Rightarrow> Inl e
           | Inr ts' \<Rightarrow> Inr (ts @ ts')))"

text \<open>
  The parser, over the tokens, with the stack of the groups that are open. \<open>alts\<close> are
  the finished alternatives of the innermost open group (last first) and \<open>terms\<close> the
  terms of its current alternative (last first), each with the flag that a quantifier
  may follow it: an atom that has no quantifier yet. A quantifier after anything else
  is a SyntaxError (nothing to repeat), and so are a \<^verbatim>\<open>)\<close> with no group open
  (unmatched parenthesis) and a group open at the end (unterminated group). Groups are
  numbered by their opening parentheses, from 1.
\<close>

definition close_alts :: "regex list \<Rightarrow> (regex \<times> bool) list \<Rightarrow> regex" where
  "close_alts alts terms = alt_list (rev (seq_list (rev (map fst terms)) # alts))"

type_synonym frame = "regex list \<times> (regex \<times> bool) list \<times> nat"

fun quantify :: "(regex \<Rightarrow> regex) \<Rightarrow> (regex \<times> bool) list \<Rightarrow> error + (regex \<times> bool) list" where
  "quantify q [] = Inl SyntaxError"
| "quantify q ((r, quantifiable) # terms) =
     (if quantifiable then Inr ((q r, False) # terms) else Inl SyntaxError)"

fun parse :: "frame list \<Rightarrow> regex list \<Rightarrow> (regex \<times> bool) list \<Rightarrow> nat \<Rightarrow> token list
    \<Rightarrow> error + regex" where
  "parse stack alts terms n [] =
     (if stack = [] then Inr (close_alts alts terms) else Inl SyntaxError)"
| "parse stack alts terms n (TAtom r # ts) = parse stack alts ((r, True) # terms) n ts"
| "parse stack alts terms n (TAssert r # ts) = parse stack alts ((r, False) # terms) n ts"
| "parse stack alts terms n (TBar # ts) =
     parse stack (seq_list (rev (map fst terms)) # alts) [] n ts"
| "parse stack alts terms n (TOpen # ts) =
     parse ((alts, terms, Suc n) # stack) [] [] (Suc n) ts"
| "parse stack alts terms n (TClose # ts) =
     (case stack of
        [] \<Rightarrow> Inl SyntaxError
      | (alts', terms', i) # stack' \<Rightarrow>
          parse stack' alts' ((Grp i (close_alts alts terms), True) # terms') n ts)"
| "parse stack alts terms n (TStar # ts) =
     (case quantify (Star True) terms of
        Inl e \<Rightarrow> Inl e
      | Inr terms' \<Rightarrow> parse stack alts terms' n ts)"
| "parse stack alts terms n (TPlus # ts) =
     (case quantify Plus terms of
        Inl e \<Rightarrow> Inl e
      | Inr terms' \<Rightarrow> parse stack alts terms' n ts)"

definition RegExp_new :: "string \<Rightarrow> error + regex" where
  "RegExp_new source =
     (case scan Top source of
        Inl e \<Rightarrow> Inl e
      | Inr ts \<Rightarrow> parse [] [] [] 0 ts)"

section \<open>The glob matcher and the file filter (analyzer.ts)\<close>

text \<open>
  \<^verbatim>\<open>pattern.replace(/\*\*/g, '.*')\<close>, \<^verbatim>\<open>.replace(/\*/g, '[^/]*')\<close> and
  \<^verbatim>\<open>.replace(/\?/g, '[^/]')\<close>: every match, from the left, without overlap. The three
  are applied one after the other, each to the result of the one before.
\<close>

fun replace_star_star :: "string \<Rightarrow> string" where
  "replace_star_star (a # b # cs) =
     (if a = CHR ''*'' \<and> b = CHR ''*'' then ''.*'' @ replace_star_star cs
      else a # replace_star_star (b # cs))"
| "replace_star_star cs = cs"

fun replace_star :: "string \<Rightarrow> string" where
  "replace_star [] = []"
| "replace_star (c # cs) =
     (if c = CHR ''*'' then ''[^/]*'' @ replace_star cs else c # replace_star cs)"

fun replace_question :: "string \<Rightarrow> string" where
  "replace_question [] = []"
| "replace_question (c # cs) =
     (if c = CHR ''?'' then ''[^/]'' @ replace_question cs else c # replace_question cs)"

definition glob_source :: "string \<Rightarrow> string" where
  "glob_source pattern = replace_question (replace_star (replace_star_star pattern))"

text \<open>
  \<^verbatim>\<open>matchesPattern\<close>: the SyntaxError of \<^verbatim>\<open>new RegExp\<close> is not caught, so it is the
  result.
\<close>

definition matchesPattern :: "string \<Rightarrow> string \<Rightarrow> error + bool" where
  "matchesPattern filePath pattern =
     (case RegExp_new (''^'' @ glob_source pattern @ ''$'') of
        Inl e \<Rightarrow> Inl e
      | Inr re \<Rightarrow> Inr (regex_test False re filePath))"

text \<open>
  The two pattern lists of the configuration; both fields are optional
  (\<^verbatim>\<open>includePatterns?: string[]\<close>), and a list that is present is truthy also when it
  is empty.
\<close>

record config =
  includePatterns :: "string list option"
  excludePatterns :: "string list option"

text \<open>
  The two loops of \<^verbatim>\<open>shouldAnalyzeFile\<close>: the first pattern that matches ends the loop,
  and so does the first that throws.
\<close>

fun any_matches :: "string \<Rightarrow> string list \<Rightarrow> error + bool" where
  "any_matches filePath [] = Inr False"
| "any_matches filePath (pattern # patterns) =
     (case matchesPattern filePath pattern of
        Inl e \<Rightarrow> Inl e
      | Inr True \<Rightarrow> Inr True
      | Inr False \<Rightarrow> any_matches filePath patterns)"

definition check_include :: "config \<Rightarrow> string \<Rightarrow> error + bool" where
  "check_include cfg filePath =
     (case includePatterns cfg of
        Some patterns \<Rightarrow> any_matches filePath patterns
      | None \<Rightarrow> Inr True)"

definition shouldAnalyzeFile :: "config \<Rightarrow> string \<Rightarrow> error + bool" where
  "shouldAnalyzeFile cfg filePath =
     (case excludePatterns cfg of
        Some patterns \<Rightarrow>
          (case any_matches filePath patterns of
             Inl e \<Rightarrow> Inl e
           | Inr True \<Rightarrow> Inr False
           | Inr False \<Rightarrow> check_include cfg filePath)
      | None \<Rightarrow> check_include cfg filePath)"

section \<open>Section extraction (analyzer.ts)\<close>

text \<open>
  The six regular expressions of \<^verbatim>\<open>extractSections\<close>, all with the flag \<^verbatim>\<open>i\<close>. Five
  have the shape
  \<^verbatim>\<open>/(?:H1|H2)[:\-\s]*([\s\S]*?)(?=\n(?:S1|...|Sn|$))/i\<close>
  and the sixth ends in \<^verbatim>\<open>$\<close> in place of the lookahead.
\<close>

definition separators :: regex where
  "separators = Star True (Cls False [CChar (CHR '':''), CChar (CHR ''-''), CSpace])"

definition body_group :: regex where
  "body_group = Grp 1 (Star False (Cls False [CSpace, CNotSpace]))"

definition section_regex :: "string list \<Rightarrow> string list \<Rightarrow> regex" where
  "section_regex headings stops =
     seq_list [alt_list (map lit headings), separators, body_group,
               Ahead (Seq (Chr newline) (alt_list (map lit stops @ [Eol])))]"

definition summary_regex :: regex where
  "summary_regex = section_regex [''Summary'', ''SUMMARY'']
     [''Purpose'', ''PURPOSE'', ''Key'', ''Impact'', ''Documentation'', ''Suggestions'']"

definition purpose_regex :: regex where
  "purpose_regex = section_regex [''Purpose'', ''PURPOSE'']
     [''Key'', ''Impact'', ''Documentation'', ''Suggestions'']"

definition impact_regex :: regex where
  "impact_regex = section_regex [''Impact'', ''IMPACT''] [''Documentation'', ''Suggestions'']"

definition doc_regex :: regex where
  "doc_regex = section_regex [''Documentation'', ''DOCUMENTATION''] [''Suggestions'']"

definition keyChanges_regex :: regex where
  "keyChanges_regex = section_regex [''Key Changes'', ''KEY CHANGES'']
     [''Impact'', ''Documentation'', ''Suggestions'']"

definition suggestions_regex :: regex where
  "suggestions_regex =
     seq_list [alt_list (map lit [''Suggestions'', ''SUGGESTIONS'']), separators, body_group, Eol]"

text \<open>The bullet or numbering at the start of a list item: \<^verbatim>\<open>/^[\-\*\+\d]+\.?\s*/\<close>.\<close>

definition bullet_regex :: regex where
  "bullet_regex =
     seq_list [Bol,
               Plus (Cls False [CChar (CHR ''-''), CChar (CHR ''*''), CChar (CHR ''+''), CDigit]),
               Opt (Chr (CHR ''.'')),
               Star True (Cls False [CSpace])]"

definition extractListItems :: "string \<Rightarrow> string list" where
  "extractListItems text =
     filter (\<lambda>line. length line > 0)
       (map (\<lambda>line. trim (replace_first_empty False bullet_regex line))
         (filter (\<lambda>line. length line > 0)
           (map trim (split_nl text))))"

text \<open>
  The object \<^verbatim>\<open>sections\<close>: a property is set when its regular expression matches, and
  is absent (\<open>None\<close>) otherwise.
\<close>

record sections =
  summary :: "string option"
  purpose :: "string option"
  impact :: "string option"
  documentation :: "string option"
  keyChanges :: "string list option"
  suggestions :: "string list option"

text \<open>
  \<^verbatim>\<open>if (match) sections.x = match[1].trim()\<close> and
  \<^verbatim>\<open>if (match) sections.x = this.extractListItems(match[1])\<close>: without a match the
  property stays absent; with one, \<^verbatim>\<open>trim\<close> and the \<^verbatim>\<open>split\<close> of \<^verbatim>\<open>extractListItems\<close> are
  called on the capture, which is a TypeError when the capture is \<^verbatim>\<open>undefined\<close>.
\<close>

definition section_text :: "regex \<Rightarrow> string \<Rightarrow> error + string option" where
  "section_text re response =
     (case regex_match True re response of
        None \<Rightarrow> Inr None
      | Some caps \<Rightarrow>
          (case caps 1 of
             None \<Rightarrow> Inl TypeError
           | Some g \<Rightarrow> Inr (Some (trim g))))"

definition section_items :: "regex \<Rightarrow> string \<Rightarrow> error + string list option" where
  "section_items re response =
     (case regex_match True re response of
        None \<Rightarrow> Inr None
      | Some caps \<Rightarrow>
          (case caps 1 of
             None \<Rightarrow> Inl TypeError
           | Some g \<Rightarrow> Inr (Some (extractListItems g))))"

text \<open>
  \<^verbatim>\<open>extractSections\<close>, in the order of the source: summary, purpose, impact,
  documentation, key changes, suggestions. An exception ends it.
\<close>

definition extractSections :: "string \<Rightarrow> error + sections" where
  "extractSections response =
     (case section_text summary_regex response of Inl e \<Rightarrow> Inl e | Inr su \<Rightarrow>
      case section_text purpose_regex response of Inl e \<Rightarrow> Inl e | Inr pu \<Rightarrow>
      case section_text impact_regex response of Inl e \<Rightarrow> Inl e | Inr im \<Rightarrow>
      case section_text doc_regex response of Inl e \<Rightarrow> Inl e | Inr doc \<Rightarrow>
      case section_items keyChanges_regex response of Inl e \<Rightarrow> Inl e | Inr kc \<Rightarrow>
      case section_items suggestions_regex response of Inl e \<Rightarrow> Inl e | Inr sg \<Rightarrow>
        Inr \<lparr> summary = su, purpose = pu, impact = im, documentation = doc,
              keyChanges = kc, suggestions = sg \<rparr>)"

text \<open>
  An \<^verbatim>\<open>AnalysisResult\<close>; its fields have the prefix \<open>r_\<close>, to tell them from the
  properties of \<^verbatim>\<open>sections\<close>.
\<close>

record AnalysisResult =
  r_file :: string
  r_language :: string
  r_summary :: string
  r_purpose :: string
  r_keyChanges :: "string list"
  r_impact :: string
  r_documentation :: string
  r_suggestions :: "string list"

text \<open>
  \<^verbatim>\<open>x || d\<close> on an optional string: \<open>d\<close> when \<open>x\<close> is absent and also when it is the
  empty string, which is falsy. On an optional array: \<open>d\<close> only when \<open>x\<close> is absent,
  since every array is truthy.
\<close>

definition or_string :: "string option \<Rightarrow> string \<Rightarrow> string" where
  "or_string x d = (case x of None \<Rightarrow> d | Some s \<Rightarrow> if s = [] then d else s)"

definition or_list :: "string list option \<Rightarrow> string list \<Rightarrow> string list" where
  "or_list x d = (case x of None \<Rightarrow> d | Some l \<Rightarrow> l)"

definition parseAnalysisResponse :: "string \<Rightarrow> string \<Rightarrow> string \<Rightarrow> error + AnalysisResult" where
  "parseAnalysisResponse filePath lang response =
     (case extractSections response of
        Inl e \<Rightarrow> Inl e
      | Inr secs \<Rightarrow>
          Inr \<lparr> r_file = filePath,
                r_language = lang,
                r_summary = or_string (summary secs) ''No summary provided'',
                r_purpose = or_string (purpose secs) ''No purpose identified'',
                r_keyChanges = or_list (keyChanges secs) [],
                r_impact = or_string (impact secs) ''Impact not specified'',
                r_documentation = or_string (documentation secs) response,
                r_suggestions = or_list (suggestions secs) [] \<rparr>)"

section \<open>The diff parser (git-utils.ts)\<close>

datatype change_type = Addition | Deletion | Modification

text \<open>
  The values that \<^verbatim>\<open>currentLineNumber\<close> takes: a JavaScript number is a double, and
  the counter starts at 0, is set to a result of \<^verbatim>\<open>parseInt\<close> on digits and is
  incremented, so it is a double that is a natural number, or \<^verbatim>\<open>Infinity\<close>, or
  \<^verbatim>\<open>NaN\<close>. \<open>Num n\<close> is the double whose value is the natural number \<open>n\<close>.
\<close>

datatype number = Num nat | Infinity | NaN

text \<open>
  The double of a natural number (the Number value for it, ECMAScript 6.1.6.1), where
  \<open>bit_length n\<close> is the number of binary digits of \<open>n\<close>: the number itself when it
  has at most 53 binary digits, that is below \<open>2^53\<close>; above, the nearest number with
  53 significant bits, the even one of two that are equally near, and
  \<^verbatim>\<open>Infinity\<close> from \<open>2^1024\<close> on.
\<close>

fun bit_length :: "nat \<Rightarrow> nat" where
  "bit_length n = (if n = 0 then 0 else Suc (bit_length (n div 2)))"

definition round_double :: "nat \<Rightarrow> number" where
  "round_double n =
     (if bit_length n \<le> 53 then Num n
      else
        (let e = bit_length n - 53;
             q = n div 2 ^ e;
             r = n mod 2 ^ e;
             q' = (if 2 ^ e < 2 * r \<or> (2 * r = 2 ^ e \<and> odd q) then q + 1 else q)
         in if 2 ^ 1024 \<le> q' * 2 ^ e then Infinity else Num (q' * 2 ^ e)))"

text \<open>\<^verbatim>\<open>currentLineNumber++\<close>: the double of the sum.\<close>

fun increment :: "number \<Rightarrow> number" where
  "increment (Num n) = round_double (n + 1)"
| "increment Infinity = Infinity"
| "increment NaN = NaN"

text \<open>A \<^verbatim>\<open>GitChange\<close>.\<close>

record GitChange =
  changeType :: change_type
  lineNumber :: number
  content :: string
  contextLines :: "string list"

text \<open>The hunk header: \<^verbatim>\<open>/@@ -\d+,?\d* \+(\d+),?\d* @@/\<close>.\<close>

definition digit :: regex where
  "digit = Cls False [CDigit]"

definition hunk_regex :: regex where
  "hunk_regex =
     seq_list [lit ''@@ -'', Plus digit, Opt (Chr (CHR '','')), Star True digit,
               Chr (CHR '' ''), Chr (CHR ''+''), Grp 1 (Plus digit),
               Opt (Chr (CHR '','')), Star True digit, lit '' @@'']"

text \<open>
  \<^verbatim>\<open>parseInt(s, 10)\<close> (ECMAScript 19.2.5) on a string that starts with neither white
  space nor a sign, as a capture of \<^verbatim>\<open>\d+\<close> does: the digits at the start of the string
  are read, \<^verbatim>\<open>NaN\<close> is the result when there are none, and otherwise the double of the
  number they denote, \<open>digits_value\<close>. (Past the 20th significant digit the standard
  lets an implementation read a digit as 0 before it rounds; the model rounds the
  number itself, and the two agree on every number below \<open>2^53\<close>, which has 16
  digits at most.) On \<^verbatim>\<open>undefined\<close> the result is \<^verbatim>\<open>NaN\<close>.
\<close>

definition digits_value :: "string \<Rightarrow> nat" where
  "digits_value s = foldl (\<lambda>n c. 10 * n + (of_char c - 48)) 0 s"

definition parseInt10 :: "string \<Rightarrow> number" where
  "parseInt10 s =
     (let ds = takeWhile is_digit s in
      if ds = [] then NaN else round_double (digits_value ds))"

definition parseInt10_capture :: "string option \<Rightarrow> number" where
  "parseInt10_capture x = (case x of None \<Rightarrow> NaN | Some g \<Rightarrow> parseInt10 g)"

text \<open>\<^verbatim>\<open>xs.slice(start, stop)\<close> for indices that are not negative.\<close>

definition slice :: "'a list \<Rightarrow> nat \<Rightarrow> nat \<Rightarrow> 'a list" where
  "slice xs start stop = take (stop - start) (drop start xs)"

definition getContextLines :: "string list \<Rightarrow> nat \<Rightarrow> nat \<Rightarrow> string list" where
  "getContextLines lines currentIndex contextSize =
     (let start = nat (max 0 (int currentIndex - int contextSize));
          stop = min (length lines) (currentIndex + contextSize + 1)
      in map substring1 (filter (\<lambda>line. startsWith line '' '') (slice lines start stop)))"

text \<open>
  The loop of \<^verbatim>\<open>parseDiffOutput\<close>: \<open>lines\<close> is the whole array, \<open>i\<close> the index of the
  loop, the third argument the lines from \<open>i\<close> on, \<open>cur\<close> is \<^verbatim>\<open>currentLineNumber\<close>.
  The changes are returned in the order in which the loop pushes them.
\<close>

fun parse_loop :: "string list \<Rightarrow> nat \<Rightarrow> string list \<Rightarrow> number \<Rightarrow> GitChange list" where
  "parse_loop lines i [] cur = []"
| "parse_loop lines i (line # rest) cur =
     (if startsWith line ''@@'' then
        (case regex_match False hunk_regex line of
           Some caps \<Rightarrow> parse_loop lines (i + 1) rest (parseInt10_capture (caps 1))
         | None \<Rightarrow> parse_loop lines (i + 1) rest cur)
      else if startsWith line ''+'' \<and> \<not> startsWith line ''+++'' then
        \<lparr> changeType = Addition, lineNumber = cur, content = substring1 line,
          contextLines = getContextLines lines i 3 \<rparr>
          # parse_loop lines (i + 1) rest (increment cur)
      else if startsWith line ''-'' \<and> \<not> startsWith line ''---'' then
        \<lparr> changeType = Deletion, lineNumber = cur, content = substring1 line,
          contextLines = getContextLines lines i 3 \<rparr>
          # parse_loop lines (i + 1) rest cur
      else if startsWith line '' '' then parse_loop lines (i + 1) rest (increment cur)
      else parse_loop lines (i + 1) rest cur)"

definition parseDiffOutput :: "string \<Rightarrow> GitChange list" where
  "parseDiffOutput diffOutput =
     (let lines = split_nl diffOutput in parse_loop lines 0 lines (Num 0))"

section \<open>The inputs of the scenarios\<close>

text \<open>
  The backend response \<^verbatim>\<open>"Summary: fixes bug\nPurpose: stability\nKey Changes:\n- fix A\n- fix B\nImpact: low risk"\<close>
  and the diff text \<^verbatim>\<open>"@@ -1,2 +1,3 @@\n line1\n+line2\n line3\n"\<close>.
\<close>

definition scenario_response :: string where
  "scenario_response =
     ''Summary: fixes bug'' @ [newline] @ ''Purpose: stability'' @ [newline]
     @ ''Key Changes:'' @ [newline] @ ''- fix A'' @ [newline] @ ''- fix B'' @ [newline]
     @ ''Impact: low risk''"

definition scenario_diff :: string where
  "scenario_diff =
     ''@@ -1,2 +1,3 @@'' @ [newline] @ '' line1'' @ [newline] @ ''+line2'' @ [newline]
     @ '' line3'' @ [newline]"

section \<open>Notions used in the statements\<close>

text \<open>The patterns of an optional list: none when the list is absent.\<close>

definition patterns_of :: "string list option \<Rightarrow> string list" where
  "patterns_of x = (case x of None \<Rightarrow> [] | Some ps \<Rightarrow> ps)"

text \<open>The result of extraction with every section absent.\<close>

definition no_sections :: sections where
  "no_sections = \<lparr> summary = None, purpose = None, impact = None, documentation = None,
     keyChanges = None, suggestions = None \<rparr>"

text \<open>
  The two branches of \<^verbatim>\<open>parseDiffOutput\<close> that push a change, as predicates on a line,
  and the lines that push one: a line that starts with \<^verbatim>\<open>@@\<close> is taken by the first
  branch of the loop and pushes none.
\<close>

definition is_addition :: "string \<Rightarrow> bool" where
  "is_addition line = (startsWith line ''+'' \<and> \<not> startsWith line ''+++'')"

definition is_deletion :: "string \<Rightarrow> bool" where
  "is_deletion line = (startsWith line ''-'' \<and> \<not> startsWith line ''---'')"

definition emits :: "string \<Rightarrow> bool" where
  "emits line = (\<not> startsWith line ''@@'' \<and> (is_addition line \<or> is_deletion line))"

text \<open>
  The context as the specification words it: of the lines at the positions from \<open>i - 3\<close>
  to \<open>i + 3\<close> that exist, those that start with a space, without that space.
\<close>

definition window_context :: "string list \<Rightarrow> nat \<Rightarrow> string list" where
  "window_context lines i =
     map substring1
       (filter (\<lambda>line. startsWith line '' '')
          (map (\<lambda>j. lines ! j) [i - 3 ..< min (length lines) (i + 4)]))"

text \<open>
  A diff of two hunks, \<^verbatim>\<open>"@@ -1,1 +1,1 @@\n a\n@@ -10,0 +10,1 @@\n+b"\<close>: the only
  unmarked line is in the first hunk and the only change in the second.
\<close>

definition two_hunk_diff :: string where
  "two_hunk_diff =
     ''@@ -1,1 +1,1 @@'' @ [newline] @ '' a'' @ [newline] @ ''@@ -10,0 +10,1 @@'' @ [newline]
     @ ''+b''"

text \<open>
  The text of a list of lines: the lines with a line feed between two of them. The
  header of a hunk in the unified format, \<^verbatim>\<open>@@ -a[,b] +c[,d] @@\<close> and what follows on
  the line: \<open>a\<close> and \<open>c\<close> are the two start lines, in decimal digits, and \<open>b\<close> and \<open>d\<close>
  are empty or a comma and the digits of a count.
\<close>

fun join_nl :: "string list \<Rightarrow> string" where
  "join_nl [] = []"
| "join_nl [l] = l"
| "join_nl (l # ls) = l @ newline # join_nl ls"

definition count_part :: "string \<Rightarrow> bool" where
  "count_part b = (case b of [] \<Rightarrow> True | x # bs \<Rightarrow> x = CHR '','' \<and> list_all is_digit bs)"

definition hunk_header :: "string \<Rightarrow> string \<Rightarrow> string \<Rightarrow> string \<Rightarrow> string \<Rightarrow> string" where
  "hunk_header a b c d tail = ''@@ -'' @ a @ b @ '' +'' @ c @ d @ '' @@'' @ tail"

text \<open>
  The characters of a pattern that never make its source malformed: all but the
  parentheses, the opening bracket and brace, \<^verbatim>\<open>+\<close> and the backslash. The tokens of
  the source of a pattern of such characters: \<^verbatim>\<open>**\<close> is \<^verbatim>\<open>.[^/]*\<close>, a single \<^verbatim>\<open>*\<close>
  is \<^verbatim>\<open>[^/]*\<close>, \<^verbatim>\<open>?\<close> is \<^verbatim>\<open>[^/]\<close>, and any other character is its own token.
\<close>

definition plain_char :: "char \<Rightarrow> bool" where
  "plain_char c = (c \<noteq> CHR ''('' \<and> c \<noteq> CHR '')'' \<and> c \<noteq> CHR ''['' \<and> c \<noteq> CHR ''+''
     \<and> c \<noteq> CHR ''{'' \<and> c \<noteq> backslash)"

definition not_separator :: regex where
  "not_separator = Cls True [CChar (CHR ''/'')]"

definition plain_token :: "char \<Rightarrow> token" where
  "plain_token c =
     (if c = CHR ''|'' then TBar
      else if c = CHR ''.'' then TAtom Dot
      else if c = CHR ''^'' then TAssert Bol
      else if c = CHR ''$'' then TAssert Eol
      else TAtom (Chr c))"

definition char_tokens :: "char \<Rightarrow> token list" where
  "char_tokens c =
     (if c = CHR ''*'' then [TAtom not_separator, TStar]
      else if c = CHR ''?'' then [TAtom not_separator]
      else [plain_token c])"

fun glob_tokens :: "string \<Rightarrow> token list" where
  "glob_tokens (a # b # cs) =
     (if a = CHR ''*'' \<and> b = CHR ''*''
      then [TAtom Dot, TAtom not_separator, TStar] @ glob_tokens cs
      else char_tokens a @ glob_tokens (b # cs))"
| "glob_tokens [a] = char_tokens a"
| "glob_tokens [] = []"

text \<open>Tokens put in front of the result of scanning the rest.\<close>

definition emit :: "token list \<Rightarrow> error + token list \<Rightarrow> error + token list" where
  "emit ts r = (case r of Inl e \<Rightarrow> Inl e | Inr ts' \<Rightarrow> Inr (ts @ ts'))"

text \<open>
  A word at the start of a text, and somewhere in a text, letters compared without
  their case as \<^verbatim>\<open>/i\<close> compares them.
\<close>

fun ci_prefix :: "string \<Rightarrow> string \<Rightarrow> bool" where
  "ci_prefix [] s = True"
| "ci_prefix (a # w) [] = False"
| "ci_prefix (a # w) (x # s) = (canonicalize True x = canonicalize True a \<and> ci_prefix w s)"

fun occurs_ci :: "string \<Rightarrow> string \<Rightarrow> bool" where
  "occurs_ci w [] = ci_prefix w []"
| "occurs_ci w (x # s) = (ci_prefix w (x # s) \<or> occurs_ci w s)"

text \<open>
  A pattern every match of which goes through the group \<open>n\<close>: the group itself, a
  sequence with such a part, an alternative of two such patterns, one or more
  repetitions of such a pattern. A state in which the capture \<open>n\<close> is defined, and a
  continuation with which a match ends in such a state: from any state (\<open>b\<close> false),
  or from a state in which the capture is defined already (\<open>b\<close> true).
\<close>

fun sets_capture :: "nat \<Rightarrow> regex \<Rightarrow> bool" where
  "sets_capture n (Grp i r) = (i = n \<or> sets_capture n r)"
| "sets_capture n (Seq r1 r2) = (sets_capture n r1 \<or> sets_capture n r2)"
| "sets_capture n (Alt r1 r2) = (sets_capture n r1 \<and> sets_capture n r2)"
| "sets_capture n (Plus r) = sets_capture n r"
| "sets_capture n r = False"

definition captured :: "nat \<Rightarrow> mstate \<Rightarrow> bool" where
  "captured n st = (snd (snd st) n \<noteq> None)"

definition leads :: "bool \<Rightarrow> nat \<Rightarrow> cont \<Rightarrow> bool" where
  "leads b n k = (\<forall>st r. (b \<longrightarrow> captured n st) \<longrightarrow> k st = Some r \<longrightarrow> captured n r)"

text \<open>
  A pattern with an alternative that leaves its group out, \<^verbatim>\<open>/a|(b)/\<close>: where the first
  alternative matches, the capture is \<^verbatim>\<open>undefined\<close>.
\<close>

definition optional_group_regex :: regex where
  "optional_group_regex = Alt (Chr (CHR ''a'')) (Grp 1 (Chr (CHR ''b'')))"

section \<open>The glob matcher on the examples\<close>

lemma glob_source_example: "glob_source ''**/*.ts'' = ''.[^/]*/[^/]*.ts''"
  by (simp add: glob_source_def)

text \<open>No source that \<^verbatim>\<open>matchesPattern\<close> compiles has a \<^verbatim>\<open>?\<close> in it.\<close>

lemma replace_question_free: "CHR ''?'' \<notin> set (replace_question s)"
  by (induction s) simp_all

lemma glob_source_question_free: "CHR ''?'' \<notin> set (''^'' @ glob_source pattern @ ''$'')"
  by (simp add: glob_source_def replace_question_free)

lemma glob_nested_ts: "matchesPattern ''src/deep/nested/file.ts'' ''**/*.ts'' = Inr False"
  by code_simp

lemma glob_tsx: "matchesPattern ''src/file.tsx'' ''**/*.ts'' = Inr False"
  by code_simp

lemma glob_star_dir: "matchesPattern ''src/file.ts'' ''*.ts'' = Inr False"
  by code_simp

lemma glob_star_file: "matchesPattern ''file.ts'' ''*.ts'' = Inr True"
  by code_simp

text \<open>
  C1. The claim: the predicate compiled from \<^verbatim>\<open>**/*.ts\<close> is true on
  \<^verbatim>\<open>src/deep/nested/file.ts\<close> and false on \<^verbatim>\<open>src/file.tsx\<close>, and the one compiled from
  \<^verbatim>\<open>*.ts\<close> is false on \<^verbatim>\<open>src/file.ts\<close> and true on \<^verbatim>\<open>file.ts\<close>. What the code
  computes: the second replacement rewrites the \<^verbatim>\<open>*\<close> of the \<^verbatim>\<open>.*\<close> that the first
  one has just written, so that \<^verbatim>\<open>**\<close> becomes \<^verbatim>\<open>.[^/]*\<close>, one character and then no
  separator; the predicate of \<^verbatim>\<open>**/*.ts\<close> is false on \<^verbatim>\<open>src/deep/nested/file.ts\<close>. The
  other three results are the ones of the claim.
\<close>

theorem matchesPattern_examples:
  "glob_source ''**/*.ts'' = ''.[^/]*/[^/]*.ts''
   \<and> matchesPattern ''src/deep/nested/file.ts'' ''**/*.ts'' = Inr False
   \<and> matchesPattern ''src/file.tsx'' ''**/*.ts'' = Inr False
   \<and> matchesPattern ''src/file.ts'' ''*.ts'' = Inr False
   \<and> matchesPattern ''file.ts'' ''*.ts'' = Inr True"
  using glob_source_example glob_nested_ts glob_tsx glob_star_dir glob_star_file by blast

section \<open>Section extraction on the scenario\<close>

lemma scenario_summary:
  "section_text summary_regex scenario_response = Inr (Some ''fixes bug'')"
  unfolding scenario_response_def by code_simp

lemma scenario_purpose:
  "section_text purpose_regex scenario_response = Inr (Some ''stability'')"
  unfolding scenario_response_def by code_simp

lemma scenario_impact: "section_text impact_regex scenario_response = Inr None"
  unfolding scenario_response_def by code_simp

lemma scenario_documentation: "section_text doc_regex scenario_response = Inr None"
  unfolding scenario_response_def by code_simp

lemma scenario_keyChanges:
  "section_items keyChanges_regex scenario_response = Inr (Some [''fix A'', ''fix B''])"
  unfolding scenario_response_def by code_simp

lemma scenario_suggestions: "section_items suggestions_regex scenario_response = Inr None"
  unfolding scenario_response_def by code_simp

text \<open>
  C2. The claim: on the scenario's response, extraction gives the summary
  \<^verbatim>\<open>fixes bug\<close>, the purpose \<^verbatim>\<open>stability\<close>, the key changes \<^verbatim>\<open>fix A\<close> and \<^verbatim>\<open>fix B\<close>,
  the impact \<^verbatim>\<open>low risk\<close>, and neither documentation nor suggestions. What the code
  computes: the impact is absent as well. The lookahead that ends the Impact section
  asks for a line feed before the end of the text, \<^verbatim>\<open>(?=\n(?:Documentation|Suggestions|$))\<close>,
  and the response ends without one.
\<close>

theorem extractSections_scenario:
  "extractSections scenario_response =
     Inr \<lparr> summary = Some ''fixes bug'', purpose = Some ''stability'', impact = None,
           documentation = None, keyChanges = Some [''fix A'', ''fix B''], suggestions = None \<rparr>"
  unfolding extractSections_def
  by (simp only: scenario_summary scenario_purpose scenario_impact scenario_documentation
      scenario_keyChanges scenario_suggestions sum.case)

text \<open>With a line feed at the end of the same response the impact is found.\<close>

lemma scenario_impact_with_newline:
  "section_text impact_regex (scenario_response @ [newline]) = Inr (Some ''low risk'')"
  unfolding scenario_response_def by code_simp

section \<open>The diff parser on the scenario\<close>

text \<open>
  C6. Parsing the diff text of the scenario yields exactly one change record: an
  addition with line number 2, text \<^verbatim>\<open>line2\<close> and context \<^verbatim>\<open>line1\<close>, \<^verbatim>\<open>line3\<close>.
\<close>

theorem parseDiffOutput_scenario:
  "parseDiffOutput scenario_diff =
     [\<lparr> changeType = Addition, lineNumber = Num 2, content = ''line2'',
        contextLines = [''line1'', ''line3''] \<rparr>]"
  unfolding scenario_diff_def by code_simp

section \<open>The file filter\<close>

lemma any_matches_none:
  "\<forall>p \<in> set ps. matchesPattern path p = Inr False \<Longrightarrow> any_matches path ps = Inr False"
  by (induction ps) simp_all

lemma any_matches_some:
  "\<exists>p \<in> set ps. matchesPattern path p = Inr True \<Longrightarrow>
   \<forall>p \<in> set ps. \<exists>b. matchesPattern path p = Inr b \<Longrightarrow>
   any_matches path ps = Inr True"
proof (induction ps)
  case Nil
  then show ?case by simp
next
  case (Cons q qs)
  from Cons.prems(2) obtain b where b: "matchesPattern path q = Inr b" by auto
  show ?case
  proof (cases b)
    case True
    with b show ?thesis by simp
  next
    case False
    with b Cons.prems have "\<exists>p \<in> set qs. matchesPattern path p = Inr True" by auto
    moreover from Cons.prems(2) have "\<forall>p \<in> set qs. \<exists>b. matchesPattern path p = Inr b" by simp
    ultimately have "any_matches path qs = Inr True" by (rule Cons.IH)
    with b False show ?thesis by simp
  qed
qed

lemma any_matches_not_False:
  "\<exists>p \<in> set ps. matchesPattern path p = Inr True \<Longrightarrow> any_matches path ps \<noteq> Inr False"
proof (induction ps)
  case Nil
  then show ?case by simp
next
  case (Cons q qs)
  show ?case
  proof (cases "matchesPattern path q")
    case (Inl e)
    then show ?thesis by simp
  next
    case (Inr b)
    show ?thesis
    proof (cases b)
      case True
      with Inr show ?thesis by simp
    next
      case False
      with Inr Cons.prems have "\<exists>p \<in> set qs. matchesPattern path p = Inr True" by auto
      then have "any_matches path qs \<noteq> Inr False" by (rule Cons.IH)
      with Inr False show ?thesis by simp
    qed
  qed
qed

lemma shouldAnalyzeFile_patterns_of:
  "shouldAnalyzeFile cfg path =
     (case any_matches path (patterns_of (excludePatterns cfg)) of
        Inl e \<Rightarrow> Inl e
      | Inr True \<Rightarrow> Inr False
      | Inr False \<Rightarrow> check_include cfg path)"
  by (simp add: shouldAnalyzeFile_def patterns_of_def split: option.splits)

text \<open>
  C4. For every path and every pair of pattern lists: a path that matches an exclude
  pattern is rejected whatever the include list is; a path that matches no exclude
  pattern is rejected when include patterns are configured and it matches none of them,
  and accepted when no include patterns are configured. Here a path matches a pattern
  when \<open>matchesPattern\<close> returns true, and matches none of a list when it returns
  false on each. A pattern that does not compile returns neither: the exception leaves
  \<open>shouldAnalyzeFile\<close>, and the loop over the exclude patterns reaches a matching pattern
  only when the patterns before it compile. So a path that matches an exclude pattern
  is never accepted, and is rejected by a returned false when the exclude patterns
  compile.
\<close>

theorem shouldAnalyzeFile_decision:
  "((\<exists>p \<in> set (patterns_of (excludePatterns cfg)). matchesPattern path p = Inr True)
      \<longrightarrow> shouldAnalyzeFile cfg path \<noteq> Inr True)
   \<and> ((\<exists>p \<in> set (patterns_of (excludePatterns cfg)). matchesPattern path p = Inr True)
       \<and> (\<forall>p \<in> set (patterns_of (excludePatterns cfg)). \<exists>b. matchesPattern path p = Inr b)
      \<longrightarrow> shouldAnalyzeFile cfg path = Inr False)
   \<and> ((\<forall>p \<in> set (patterns_of (excludePatterns cfg)). matchesPattern path p = Inr False)
       \<and> (\<exists>ps. includePatterns cfg = Some ps \<and> (\<forall>p \<in> set ps. matchesPattern path p = Inr False))
      \<longrightarrow> shouldAnalyzeFile cfg path = Inr False)
   \<and> ((\<forall>p \<in> set (patterns_of (excludePatterns cfg)). matchesPattern path p = Inr False)
       \<and> includePatterns cfg = None
      \<longrightarrow> shouldAnalyzeFile cfg path = Inr True)"
proof (intro conjI impI)
  assume "\<exists>p \<in> set (patterns_of (excludePatterns cfg)). matchesPattern path p = Inr True"
  then have "any_matches path (patterns_of (excludePatterns cfg)) \<noteq> Inr False"
    by (rule any_matches_not_False)
  then show "shouldAnalyzeFile cfg path \<noteq> Inr True"
    by (auto simp: shouldAnalyzeFile_patterns_of split: sum.splits bool.splits)
next
  assume "(\<exists>p \<in> set (patterns_of (excludePatterns cfg)). matchesPattern path p = Inr True)
       \<and> (\<forall>p \<in> set (patterns_of (excludePatterns cfg)). \<exists>b. matchesPattern path p = Inr b)"
  then have "any_matches path (patterns_of (excludePatterns cfg)) = Inr True"
    using any_matches_some by blast
  then show "shouldAnalyzeFile cfg path = Inr False"
    by (simp add: shouldAnalyzeFile_patterns_of)
next
  assume a: "(\<forall>p \<in> set (patterns_of (excludePatterns cfg)). matchesPattern path p = Inr False)
       \<and> (\<exists>ps. includePatterns cfg = Some ps \<and> (\<forall>p \<in> set ps. matchesPattern path p = Inr False))"
  then have "any_matches path (patterns_of (excludePatterns cfg)) = Inr False"
    using any_matches_none by blast
  moreover from a have "check_include cfg path = Inr False"
    using any_matches_none by (auto simp: check_include_def)
  ultimately show "shouldAnalyzeFile cfg path = Inr False"
    by (simp add: shouldAnalyzeFile_patterns_of)
next
  assume a: "(\<forall>p \<in> set (patterns_of (excludePatterns cfg)). matchesPattern path p = Inr False)
       \<and> includePatterns cfg = None"
  then have "any_matches path (patterns_of (excludePatterns cfg)) = Inr False"
    using any_matches_none by blast
  moreover from a have "check_include cfg path = Inr True"
    by (simp add: check_include_def)
  ultimately show "shouldAnalyzeFile cfg path = Inr True"
    by (simp add: shouldAnalyzeFile_patterns_of)
qed

lemma filter_example_1: "matchesPattern ''a.test.ts'' ''*.test.ts'' = Inr True"
  by code_simp

lemma filter_example_2: "matchesPattern ''a.test.ts'' ''*.ts'' = Inr True"
  by code_simp

lemma filter_example_3: "matchesPattern ''README.md'' ''*.test.ts'' = Inr False"
  by code_simp

lemma filter_example_4: "matchesPattern ''README.md'' ''*.ts'' = Inr False"
  by code_simp

theorem shouldAnalyzeFile_decision_witness:
  "matchesPattern ''a.test.ts'' ''*.test.ts'' = Inr True
   \<and> matchesPattern ''a.test.ts'' ''*.ts'' = Inr True
   \<and> shouldAnalyzeFile \<lparr> includePatterns = Some [''*.ts''], excludePatterns = Some [''*.test.ts''] \<rparr>
        ''a.test.ts'' = Inr False
   \<and> matchesPattern ''README.md'' ''*.test.ts'' = Inr False
   \<and> matchesPattern ''README.md'' ''*.ts'' = Inr False
   \<and> shouldAnalyzeFile \<lparr> includePatterns = Some [''*.ts''], excludePatterns = Some [''*.test.ts''] \<rparr>
        ''README.md'' = Inr False
   \<and> shouldAnalyzeFile \<lparr> includePatterns = None, excludePatterns = Some [''*.test.ts''] \<rparr>
        ''README.md'' = Inr True"
  using shouldAnalyzeFile_decision
      [of "\<lparr> includePatterns = Some [''*.ts''], excludePatterns = Some [''*.test.ts''] \<rparr>" "''a.test.ts''"]
    shouldAnalyzeFile_decision
      [of "\<lparr> includePatterns = Some [''*.ts''], excludePatterns = Some [''*.test.ts''] \<rparr>" "''README.md''"]
    shouldAnalyzeFile_decision
      [of "\<lparr> includePatterns = None, excludePatterns = Some [''*.test.ts''] \<rparr>" "''README.md''"]
    filter_example_1 filter_example_2 filter_example_3 filter_example_4
  by (auto simp add: patterns_of_def)

text \<open>
  C10. When the include list is present and empty, no path is accepted: a path that
  matches no exclude pattern is rejected, where the same path with no include list
  configured is accepted. An empty array is truthy, so \<^verbatim>\<open>if (includePatterns)\<close> is
  entered, its loop has nothing to try, and \<^verbatim>\<open>return false\<close> follows.
\<close>

theorem empty_include_rejects:
  "shouldAnalyzeFile \<lparr> includePatterns = Some [], excludePatterns = ex \<rparr> path \<noteq> Inr True
   \<and> ((\<forall>p \<in> set (patterns_of ex). matchesPattern path p = Inr False)
        \<longrightarrow> shouldAnalyzeFile \<lparr> includePatterns = Some [], excludePatterns = ex \<rparr> path = Inr False
          \<and> shouldAnalyzeFile \<lparr> includePatterns = None, excludePatterns = ex \<rparr> path = Inr True)"
proof (intro conjI impI)
  show "shouldAnalyzeFile \<lparr> includePatterns = Some [], excludePatterns = ex \<rparr> path \<noteq> Inr True"
    by (auto simp: shouldAnalyzeFile_patterns_of check_include_def split: sum.splits bool.splits)
next
  assume a: "\<forall>p \<in> set (patterns_of ex). matchesPattern path p = Inr False"
  then have n: "any_matches path (patterns_of ex) = Inr False" by (rule any_matches_none)
  then show "shouldAnalyzeFile \<lparr> includePatterns = Some [], excludePatterns = ex \<rparr> path = Inr False"
    by (simp add: shouldAnalyzeFile_patterns_of check_include_def)
  from n show "shouldAnalyzeFile \<lparr> includePatterns = None, excludePatterns = ex \<rparr> path = Inr True"
    by (simp add: shouldAnalyzeFile_patterns_of check_include_def)
qed

theorem empty_include_rejects_witness:
  "matchesPattern ''src/file.ts'' ''*.test.ts'' = Inr False
   \<and> shouldAnalyzeFile \<lparr> includePatterns = Some [], excludePatterns = Some [''*.test.ts''] \<rparr>
        ''src/file.ts'' = Inr False
   \<and> shouldAnalyzeFile \<lparr> includePatterns = None, excludePatterns = Some [''*.test.ts''] \<rparr>
        ''src/file.ts'' = Inr True"
proof -
  have h: "matchesPattern ''src/file.ts'' ''*.test.ts'' = Inr False" by code_simp
  then have "\<forall>p \<in> set (patterns_of (Some [''*.test.ts''])). matchesPattern ''src/file.ts'' p = Inr False"
    by (simp add: patterns_of_def)
  with empty_include_rejects [of "Some [''*.test.ts'']" "''src/file.ts''"] h
  show ?thesis by blast
qed

section \<open>The captures that a match defines\<close>

text \<open>
  The equation of \<open>star\<close> is applied where a proof says so; evaluation by \<open>code_simp\<close>
  has it as a code equation.
\<close>

declare star.simps [simp del]

lemma m_Seq: "m (Seq r1 r2) ic k = m r1 ic (m r2 ic k)"
  by (rule ext) simp

text \<open>
  A match of a pattern every path of which goes through the group \<open>n\<close> defines the
  capture \<open>n\<close>: a continuation that keeps a capture defined keeps it defined behind
  any pattern (\<open>leads_m\<close>), and behind such a pattern it is reached with the capture
  defined from any state (\<open>sets_capture_leads\<close>).
\<close>

lemma leadsI: "(\<And>st r. (b \<longrightarrow> captured n st) \<Longrightarrow> k st = Some r \<Longrightarrow> captured n r) \<Longrightarrow> leads b n k"
  unfolding leads_def by blast

lemma leadsD: "leads b n k \<Longrightarrow> (b \<longrightarrow> captured n st) \<Longrightarrow> k st = Some r \<Longrightarrow> captured n r"
  unfolding leads_def by blast

lemma captured_moved: "captured n (pre, rest, caps) \<Longrightarrow> captured n (pre', rest', caps)"
  by (simp add: captured_def)

lemma captured_update: "captured n (pre, rest, caps) \<Longrightarrow> captured n (pre', rest', caps(i \<mapsto> x))"
  by (simp add: captured_def)

lemma captured_set: "captured n (pre, rest, caps(n \<mapsto> x))"
  by (simp add: captured_def)

lemma leads_one_char:
  assumes "leads b n k"
  shows "leads b n (one_char P k)"
proof (rule leadsI)
  fix st r
  assume b: "b \<longrightarrow> captured n st" and r: "one_char P k st = Some r"
  obtain pre rest caps where st: "st = (pre, rest, caps)" by (cases st)
  from r st obtain x xs where kr: "k (x # pre, xs, caps) = Some r"
    by (auto simp: one_char_def split: list.splits if_splits)
  from b st have "b \<longrightarrow> captured n (x # pre, xs, caps)"
    using captured_moved by blast
  from leadsD [OF assms this kr] show "captured n r" .
qed

lemma leads_guard:
  assumes "leads b n k"
  shows "leads b n (\<lambda>st. if c st then k st else None)"
proof (rule leadsI)
  fix st r
  assume b: "b \<longrightarrow> captured n st" and r: "(if c st then k st else None) = Some r"
  then have "k st = Some r" by (simp split: if_splits)
  from leadsD [OF assms b this] show "captured n r" .
qed

lemma leads_orelse:
  assumes "leads b n f" and "leads b n g"
  shows "leads b n (\<lambda>st. case f st of Some r \<Rightarrow> Some r | None \<Rightarrow> g st)"
proof (rule leadsI)
  fix st r
  assume b: "b \<longrightarrow> captured n st"
    and r: "(case f st of Some r \<Rightarrow> Some r | None \<Rightarrow> g st) = Some r"
  then have "f st = Some r \<or> g st = Some r" by (simp split: option.splits)
  with leadsD [OF assms(1) b] leadsD [OF assms(2) b] show "captured n r" by blast
qed

lemma leads_star:
  assumes body: "\<And>k'. leads b n k' \<Longrightarrow> leads b n (body k')" and k: "leads b n k"
  shows "leads b n (star greedy body k)"
proof (rule leadsI)
  fix st r
  assume "b \<longrightarrow> captured n st" and "star greedy body k st = Some r"
  then show "captured n r"
  proof (induction st arbitrary: r rule: measure_induct_rule [of "\<lambda>st. length (remaining st)"])
    case (less st)
    let ?k' = "\<lambda>st'. if length (remaining st') < length (remaining st)
                       then star greedy body k st' else None"
    have "leads b n ?k'"
    proof (rule leadsI)
      fix st' r'
      assume b': "b \<longrightarrow> captured n st'" and r': "?k' st' = Some r'"
      then have lt: "length (remaining st') < length (remaining st)"
        and eq: "star greedy body k st' = Some r'"
        by (simp_all split: if_splits)
      from less.IH [OF lt b' eq] show "captured n r'" .
    qed
    then have again: "leads b n (body ?k')" by (rule body)
    from less.prems(2) have "body ?k' st = Some r \<or> k st = Some r"
      by (subst (asm) star.simps) (simp split: if_splits option.splits)
    then show ?case
      using leadsD [OF again less.prems(1)] leadsD [OF k less.prems(1)] by blast
  qed
qed

lemma leads_Some: "leads True n Some"
  unfolding leads_def by simp

lemma m_Eps_fun: "m Eps ic k = k"
  by (rule ext) simp

lemma m_Chr_fun: "m (Chr a) ic k = one_char (\<lambda>c. canonicalize ic c = canonicalize ic a) k"
  by (rule ext) simp

lemma m_Dot_fun: "m Dot ic k = one_char (\<lambda>c. \<not> is_line_terminator c) k"
  by (rule ext) simp

lemma m_Cls_fun: "m (Cls neg items) ic k = one_char (\<lambda>c. class_has ic items c \<noteq> neg) k"
  by (rule ext) simp

lemma m_Bol_fun: "m Bol ic k = (\<lambda>st. if fst st = [] then k st else None)"
  by (rule ext) simp

lemma m_Eol_fun: "m Eol ic k = (\<lambda>st. if remaining st = [] then k st else None)"
  by (rule ext) simp

lemma m_WordB_fun: "m (WordB w) ic k = (\<lambda>st. if word_boundary st = w then k st else None)"
  by (rule ext) simp

lemma m_Alt_fun:
  "m (Alt r1 r2) ic k = (\<lambda>st. case m r1 ic k st of Some r \<Rightarrow> Some r | None \<Rightarrow> m r2 ic k st)"
  by (rule ext) simp

lemma m_Star_fun: "m (Star greedy r) ic k = star greedy (m r ic) k"
  by (rule ext) simp

lemma m_Plus_fun: "m (Plus r) ic k = m r ic (star True (m r ic) k)"
  by (rule ext) simp

lemma leads_group_cont:
  assumes "leads b n k"
  shows "leads b n (\<lambda>st'. case st' of (pre', rest', caps') \<Rightarrow> k (pre', rest', caps'(i \<mapsto> f rest')))"
proof (rule leadsI)
  fix st r
  assume b: "b \<longrightarrow> captured n st"
    and r: "(case st of (pre', rest', caps') \<Rightarrow> k (pre', rest', caps'(i \<mapsto> f rest'))) = Some r"
  obtain pre rest caps where st: "st = (pre, rest, caps)" by (cases st)
  with r have kr: "k (pre, rest, caps(i \<mapsto> f rest)) = Some r" by simp
  from b st have "b \<longrightarrow> captured n (pre, rest, caps(i \<mapsto> f rest))"
    using captured_update by blast
  from leadsD [OF assms this kr] show "captured n r" .
qed

lemma leads_group_cont_set:
  assumes "leads True n k"
  shows "leads False n (\<lambda>st'. case st' of (pre', rest', caps') \<Rightarrow> k (pre', rest', caps'(n \<mapsto> f rest')))"
proof (rule leadsI)
  fix st r
  assume r: "(case st of (pre', rest', caps') \<Rightarrow> k (pre', rest', caps'(n \<mapsto> f rest'))) = Some r"
  obtain pre rest caps where st: "st = (pre, rest, caps)" by (cases st)
  with r have kr: "k (pre, rest, caps(n \<mapsto> f rest)) = Some r" by simp
  have "True \<longrightarrow> captured n (pre, rest, caps(n \<mapsto> f rest))"
    using captured_set by blast
  from leadsD [OF assms this kr] show "captured n r" .
qed

lemma m_Grp_apply:
  "m (Grp i r) ic k st =
     m r ic (\<lambda>st'. case st' of (pre', rest', caps') \<Rightarrow>
       k (pre', rest', caps'(i \<mapsto> take (length (remaining st) - length rest') (remaining st)))) st"
  by simp

lemma leads_Grp:
  assumes inner: "\<And>k'. leads b' n k' \<Longrightarrow> leads b n (m r ic k')"
    and cont: "\<And>f. leads b' n (\<lambda>st'. case st' of (pre', rest', caps') \<Rightarrow>
        k (pre', rest', caps'(i \<mapsto> f rest')))"
  shows "leads b n (m (Grp i r) ic k)"
proof (rule leadsI)
  fix st res
  assume b: "b \<longrightarrow> captured n st" and res: "m (Grp i r) ic k st = Some res"
  let ?k' = "\<lambda>st'. case st' of (pre', rest', caps') \<Rightarrow>
       k (pre', rest', caps'(i \<mapsto> take (length (remaining st) - length rest') (remaining st)))"
  have "leads b' n ?k'" by (rule cont)
  then have again: "leads b n (m r ic ?k')" by (rule inner)
  from res have "m r ic ?k' st = Some res" by (simp only: m_Grp_apply)
  from leadsD [OF again b this] show "captured n res" .
qed

lemma leads_Opt:
  assumes inner: "\<And>k'. leads b n k' \<Longrightarrow> leads b n (m r ic k')" and k: "leads b n k"
  shows "leads b n (m (Opt r) ic k)"
proof (rule leadsI)
  fix st res
  assume b: "b \<longrightarrow> captured n st" and res: "m (Opt r) ic k st = Some res"
  let ?k' = "\<lambda>st'. if length (remaining st') < length (remaining st) then k st' else None"
  have "leads b n ?k'" by (rule leads_guard [OF k])
  then have again: "leads b n (m r ic ?k')" by (rule inner)
  from res have "m r ic ?k' st = Some res \<or> k st = Some res"
    by (simp split: option.splits)
  then show "captured n res"
    using leadsD [OF again b] leadsD [OF k b] by blast
qed

lemma leads_Ahead:
  assumes inner: "leads True n (m r ic Some)" and k: "leads b n k"
  shows "leads b n (m (Ahead r) ic k)"
proof (rule leadsI)
  fix st res
  assume b: "b \<longrightarrow> captured n st" and res: "m (Ahead r) ic k st = Some res"
  from res obtain st' where st': "m r ic Some st = Some st'"
    and kr: "k (fst st, remaining st, snd (snd st')) = Some res"
    by (auto split: option.splits)
  have "b \<longrightarrow> captured n (fst st, remaining st, snd (snd st'))"
  proof
    assume b
    with b have "True \<longrightarrow> captured n st" by simp
    from leadsD [OF inner this st'] have "captured n st'" .
    then show "captured n (fst st, remaining st, snd (snd st'))"
      by (simp add: captured_def)
  qed
  from leadsD [OF k this kr] show "captured n res" .
qed

lemma leads_m: "leads b n k \<Longrightarrow> leads b n (m re ic k)"
proof (induction re arbitrary: k b)
  case Eps
  then show ?case by (simp only: m_Eps_fun)
next
  case (Chr a)
  then show ?case by (simp only: m_Chr_fun leads_one_char)
next
  case Dot
  then show ?case by (simp only: m_Dot_fun leads_one_char)
next
  case (Cls neg items)
  then show ?case by (simp only: m_Cls_fun leads_one_char)
next
  case Bol
  then show ?case by (simp only: m_Bol_fun leads_guard)
next
  case Eol
  then show ?case by (simp only: m_Eol_fun leads_guard)
next
  case (WordB w)
  then show ?case by (simp only: m_WordB_fun leads_guard)
next
  case (Seq r1 r2)
  from Seq.IH(1) [OF Seq.IH(2) [OF Seq.prems]] show ?case by (simp only: m_Seq)
next
  case (Alt r1 r2)
  from leads_orelse [OF Alt.IH(1) [OF Alt.prems] Alt.IH(2) [OF Alt.prems]]
  show ?case by (simp only: m_Alt_fun)
next
  case (Star greedy r)
  have "leads b n (star greedy (m r ic) k)"
    by (rule leads_star) (rule Star.IH, assumption, rule Star.prems)
  then show ?case by (simp only: m_Star_fun)
next
  case (Plus r)
  have "leads b n (star True (m r ic) k)"
    by (rule leads_star) (rule Plus.IH, assumption, rule Plus.prems)
  from Plus.IH [OF this] show ?case by (simp only: m_Plus_fun)
next
  case (Opt r)
  show ?case by (rule leads_Opt) (rule Opt.IH, assumption, rule Opt.prems)
next
  case (Grp i r)
  show ?case
    by (rule leads_Grp [where b' = b]) (rule Grp.IH, assumption, rule leads_group_cont [OF Grp.prems])
next
  case (Ahead r)
  show ?case by (rule leads_Ahead [OF Ahead.IH [OF leads_Some] Ahead.prems])
qed

lemma sets_capture_leads:
  "sets_capture n re \<Longrightarrow> leads True n k \<Longrightarrow> leads False n (m re ic k)"
proof (induction re arbitrary: k)
  case (Seq r1 r2)
  show ?case
  proof (cases "sets_capture n r1")
    case True
    have "leads True n (m r2 ic k)" by (rule leads_m [OF Seq.prems(2)])
    from Seq.IH(1) [OF True this] show ?thesis by (simp only: m_Seq)
  next
    case False
    with Seq.prems have "sets_capture n r2" by simp
    from Seq.IH(2) [OF this Seq.prems(2)] have "leads False n (m r2 ic k)" .
    from leads_m [OF this] show ?thesis by (simp only: m_Seq)
  qed
next
  case (Alt r1 r2)
  then have "leads False n (m r1 ic k)" "leads False n (m r2 ic k)" by simp_all
  from leads_orelse [OF this] show ?case by (simp only: m_Alt_fun)
next
  case (Plus r)
  from Plus.prems have r: "sets_capture n r" by simp
  have "leads True n (star True (m r ic) k)"
    by (rule leads_star) (rule leads_m, assumption, rule Plus.prems)
  from Plus.IH [OF r this] show ?case by (simp only: m_Plus_fun)
next
  case (Grp i r)
  show ?case
  proof (cases "i = n")
    case True
    show ?thesis
      unfolding True
      by (rule leads_Grp [where b' = False]) (rule leads_m, assumption,
          rule leads_group_cont_set [OF Grp.prems(2)])
  next
    case False
    with Grp.prems have r: "sets_capture n r" by simp
    show ?thesis
      by (rule leads_Grp [where b' = True]) (rule Grp.IH [OF r], assumption,
          rule leads_group_cont [OF Grp.prems(2)])
  qed
qed simp_all

lemma m_captured:
  assumes "sets_capture n re" and "m re ic Some st = Some r"
  shows "captured n r"
proof -
  have "leads False n (m re ic Some)"
    by (rule sets_capture_leads [OF assms(1) leads_Some])
  from leadsD [OF this _ assms(2)] show ?thesis by simp
qed

lemma exec_from_captured:
  "sets_capture n re \<Longrightarrow> exec_from ic re pre s = Some (p, st) \<Longrightarrow> captured n st"
proof (induction s arbitrary: pre)
  case Nil
  then have "m re ic Some (pre, [], Map.empty) = Some st"
    by (simp split: option.splits)
  with Nil(1) show ?case by (rule m_captured)
next
  case (Cons c cs)
  show ?case
  proof (cases "m re ic Some (pre, c # cs, Map.empty)")
    case None
    with Cons show ?thesis by simp
  next
    case (Some st')
    with Cons.prems have "st' = st" by simp
    with Some Cons.prems(1) show ?thesis using m_captured by blast
  qed
qed

lemma regex_match_captured:
  assumes "sets_capture n re" and "regex_match ic re s = Some caps"
  shows "caps n \<noteq> None"
proof -
  from assms(2) obtain p st where e: "exec_from ic re [] s = Some (p, st)"
    and caps: "caps = snd (snd st)"
    by (auto simp: regex_match_def regex_exec_def split: option.splits prod.splits)
  from exec_from_captured [OF assms(1) e] caps show ?thesis
    by (simp add: captured_def)
qed

text \<open>
  Each of the six patterns of \<^verbatim>\<open>extractSections\<close> has its group on every path, so
  \<^verbatim>\<open>match[1]\<close> is a string whenever there is a match and neither \<^verbatim>\<open>trim\<close> nor
  \<^verbatim>\<open>extractListItems\<close> is called on \<^verbatim>\<open>undefined\<close>. A pattern with its group in one
  alternative only makes the same step throw.
\<close>

lemma sets_capture_section_regex: "sets_capture 1 (section_regex [h1, h2] stops)"
  by (simp add: section_regex_def body_group_def)

lemma sets_capture_sections:
  "sets_capture 1 summary_regex" "sets_capture 1 purpose_regex" "sets_capture 1 impact_regex"
  "sets_capture 1 doc_regex" "sets_capture 1 keyChanges_regex" "sets_capture 1 suggestions_regex"
  unfolding summary_regex_def purpose_regex_def impact_regex_def doc_regex_def
    keyChanges_regex_def
  by (rule sets_capture_section_regex)+ (simp add: suggestions_regex_def body_group_def)

lemma section_text_returns:
  assumes "sets_capture 1 re"
  shows "\<exists>x. section_text re response = Inr x"
proof (cases "regex_match True re response")
  case None
  then show ?thesis by (simp add: section_text_def)
next
  case (Some caps)
  with assms have "caps 1 \<noteq> None" by (rule regex_match_captured)
  with Some show ?thesis by (auto simp: section_text_def)
qed

lemma section_items_returns:
  assumes "sets_capture 1 re"
  shows "\<exists>x. section_items re response = Inr x"
proof (cases "regex_match True re response")
  case None
  then show ?thesis by (simp add: section_items_def)
next
  case (Some caps)
  with assms have "caps 1 \<noteq> None" by (rule regex_match_captured)
  with Some show ?thesis by (auto simp: section_items_def)
qed

lemma extractSections_returns:
  "extractSections response =
     Inr \<lparr> summary = projr (section_text summary_regex response),
           purpose = projr (section_text purpose_regex response),
           impact = projr (section_text impact_regex response),
           documentation = projr (section_text doc_regex response),
           keyChanges = projr (section_items keyChanges_regex response),
           suggestions = projr (section_items suggestions_regex response) \<rparr>"
proof -
  obtain su pu im doc kc sg where
    "section_text summary_regex response = Inr su"
    "section_text purpose_regex response = Inr pu"
    "section_text impact_regex response = Inr im"
    "section_text doc_regex response = Inr doc"
    "section_items keyChanges_regex response = Inr kc"
    "section_items suggestions_regex response = Inr sg"
    using section_text_returns section_items_returns sets_capture_sections by metis
  then show ?thesis by (simp add: extractSections_def)
qed

lemma section_text_throws: "section_text optional_group_regex ''a'' = Inl TypeError"
  by code_simp

section \<open>The defaults of the analysis record\<close>

lemma extractSections_hello: "extractSections ''hello'' = Inr no_sections"
  unfolding no_sections_def by code_simp

lemma extractSections_world: "extractSections ''world'' = Inr no_sections"
  unfolding no_sections_def by code_simp

text \<open>
  C5. The claim: when a scalar section (summary, purpose, impact, documentation) is not
  found, the field of the analysis record is a fixed placeholder string. It fails for
  the documentation: \<^verbatim>\<open>sections.documentation || response\<close> puts the whole response
  there, so two responses without a Documentation section give two different fields.
\<close>

theorem documentation_default_counterexample:
  "extractSections ''hello'' = Inr no_sections
   \<and> documentation no_sections = None
   \<and> parseAnalysisResponse ''a.ts'' ''typescript'' ''hello'' =
       Inr \<lparr> r_file = ''a.ts'', r_language = ''typescript'',
             r_summary = ''No summary provided'', r_purpose = ''No purpose identified'',
             r_keyChanges = [], r_impact = ''Impact not specified'',
             r_documentation = ''hello'', r_suggestions = [] \<rparr>
   \<and> extractSections ''world'' = Inr no_sections
   \<and> parseAnalysisResponse ''a.ts'' ''typescript'' ''world'' =
       Inr \<lparr> r_file = ''a.ts'', r_language = ''typescript'',
             r_summary = ''No summary provided'', r_purpose = ''No purpose identified'',
             r_keyChanges = [], r_impact = ''Impact not specified'',
             r_documentation = ''world'', r_suggestions = [] \<rparr>"
  by (simp add: parseAnalysisResponse_def extractSections_hello extractSections_world
      no_sections_def or_string_def or_list_def)

text \<open>
  C5, as amended. For every response, extraction returns a record of sections and
  \<^verbatim>\<open>parseAnalysisResponse\<close> an analysis record, in which an absent summary, purpose or
  impact is the placeholder \<^verbatim>\<open>No summary provided\<close>, \<^verbatim>\<open>No purpose identified\<close> or
  \<^verbatim>\<open>Impact not specified\<close>, and an absent documentation is the response itself.
\<close>

theorem parseAnalysisResponse_defaults:
  "\<exists>secs res.
     extractSections response = Inr secs
     \<and> parseAnalysisResponse filePath lang response = Inr res
     \<and> (summary secs = None \<longrightarrow> r_summary res = ''No summary provided'')
     \<and> (purpose secs = None \<longrightarrow> r_purpose res = ''No purpose identified'')
     \<and> (impact secs = None \<longrightarrow> r_impact res = ''Impact not specified'')
     \<and> (documentation secs = None \<longrightarrow> r_documentation res = response)"
proof -
  obtain secs where secs: "extractSections response = Inr secs"
    using extractSections_returns by blast
  then show ?thesis
    by (simp add: parseAnalysisResponse_def or_string_def)
qed

theorem parseAnalysisResponse_defaults_witness:
  "\<exists>res.
     parseAnalysisResponse ''a.ts'' ''typescript'' ''hello'' = Inr res
     \<and> summary no_sections = None \<and> r_summary res = ''No summary provided''
     \<and> purpose no_sections = None \<and> r_purpose res = ''No purpose identified''
     \<and> impact no_sections = None \<and> r_impact res = ''Impact not specified''
     \<and> documentation no_sections = None \<and> r_documentation res = ''hello''"
  using parseAnalysisResponse_defaults [of "''hello''" "''a.ts''" "''typescript''"]
  by (auto simp: extractSections_hello no_sections_def)

section \<open>The context of a change\<close>

lemma slice_nth: "stop \<le> length xs \<Longrightarrow> slice xs start stop = map (\<lambda>j. xs ! j) [start ..< stop]"
  unfolding slice_def by (rule nth_equalityI) auto

lemma getContextLines_window: "getContextLines lines i 3 = window_context lines i"
proof -
  have "nat (max 0 (int i - int 3)) = i - 3" by simp
  moreover have "min (length lines) (i + 3 + 1) = min (length lines) (i + 4)" by simp
  ultimately show ?thesis
    unfolding getContextLines_def window_context_def Let_def
    by (simp add: slice_nth del: of_nat_numeral)
qed

lemma parse_loop_step:
  "\<exists>c. parse_loop lines i (line # rest) cur =
     (if emits line
      then [\<lparr> changeType = (if is_addition line then Addition else Deletion), lineNumber = cur,
               content = substring1 line, contextLines = getContextLines lines i 3 \<rparr>]
      else [])
     @ parse_loop lines (Suc i) rest c"
proof (cases "startsWith line ''@@''")
  case True
  then show ?thesis by (auto simp: emits_def split: option.splits)
next
  case False
  then show ?thesis by (auto simp: emits_def is_addition_def is_deletion_def)
qed

lemma parse_loop_contexts:
  "rest = drop i lines \<Longrightarrow>
   map contextLines (parse_loop lines i rest cur) =
     map (\<lambda>j. getContextLines lines j 3) (filter (\<lambda>j. emits (lines ! j)) [i ..< i + length rest])"
proof (induction rest arbitrary: i cur)
  case Nil
  then show ?case by simp
next
  case (Cons line rest)
  from Cons.prems have i: "i < length lines"
    by (metis drop_all list.distinct(1) not_le)
  from Cons.prems i have line: "lines ! i = line"
    by (metis nth_via_drop)
  from Cons.prems have rest: "rest = drop (Suc i) lines"
    by (metis drop_Suc list.sel(3) tl_drop)
  have "[i ..< i + length (line # rest)] = i # [Suc i ..< Suc i + length rest]"
    using upt_conv_Cons [of i "i + length (line # rest)"] by simp
  then have F: "filter (\<lambda>j. emits (lines ! j)) [i ..< i + length (line # rest)] =
      (if emits line then [i] else [])
      @ filter (\<lambda>j. emits (lines ! j)) [Suc i ..< Suc i + length rest]"
    using line by (simp del: upt_Suc)
  obtain c where c: "parse_loop lines i (line # rest) cur =
     (if emits line
      then [\<lparr> changeType = (if is_addition line then Addition else Deletion), lineNumber = cur,
               content = substring1 line, contextLines = getContextLines lines i 3 \<rparr>]
      else [])
     @ parse_loop lines (Suc i) rest c"
    using parse_loop_step by blast
  have "map contextLines (parse_loop lines (Suc i) rest c) =
     map (\<lambda>j. getContextLines lines j 3)
       (filter (\<lambda>j. emits (lines ! j)) [Suc i ..< Suc i + length rest])"
    by (rule Cons.IH [OF rest])
  then show ?case
    unfolding F c by simp
qed

lemma window_context_length: "length (window_context lines i) \<le> 7"
proof -
  have "length (window_context lines i) \<le> length [i - 3 ..< min (length lines) (i + 4)]"
    unfolding window_context_def
    by (metis length_filter_le length_map)
  also have "\<dots> \<le> 7" by auto
  finally show ?thesis .
qed

lemma window_context_member:
  assumes "c \<in> set (window_context lines i)"
  shows "\<exists>j. i - 3 \<le> j \<and> j \<le> i + 3 \<and> j < length lines \<and> lines ! j = CHR '' '' # c"
proof -
  from assms obtain l where l: "l \<in> set (map (\<lambda>j. lines ! j) [i - 3 ..< min (length lines) (i + 4)])"
      "startsWith l '' ''" "c = substring1 l"
    unfolding window_context_def by auto
  from l(2) have "l = CHR '' '' # substring1 l"
    by (cases l) (auto simp: substring1_def)
  with l(3) have "l = CHR '' '' # c" by simp
  moreover from l(1) obtain j where "i - 3 \<le> j" "j < min (length lines) (i + 4)" "lines ! j = l"
    by auto
  ultimately show ?thesis by (intro exI [of _ j]) auto
qed

lemma two_hunk_lines:
  "split_nl two_hunk_diff = [''@@ -1,1 +1,1 @@'', '' a'', ''@@ -10,0 +10,1 @@'', ''+b'']"
  unfolding two_hunk_diff_def by code_simp

lemma two_hunk_changes:
  "parseDiffOutput two_hunk_diff =
     [\<lparr> changeType = Addition, lineNumber = Num 10, content = ''b'', contextLines = [''a''] \<rparr>]"
  unfolding two_hunk_diff_def by code_simp

text \<open>
  C8. The claim: the context of a change record is made of the lines of the window of
  \<open>2 * 3 + 1\<close> lines around its position that start with a space, without the space, and
  no line outside the record's own hunk is ever in it. The last part fails:
  \<^verbatim>\<open>getContextLines\<close> slices the array of all the lines and knows no hunk, so the
  addition of the second hunk of \<open>two_hunk_diff\<close> has the unmarked line \<^verbatim>\<open>a\<close> of the
  first hunk as its context.
\<close>

theorem context_crosses_hunks:
  "split_nl two_hunk_diff = [''@@ -1,1 +1,1 @@'', '' a'', ''@@ -10,0 +10,1 @@'', ''+b'']
   \<and> parseDiffOutput two_hunk_diff =
     [\<lparr> changeType = Addition, lineNumber = Num 10, content = ''b'', contextLines = [''a''] \<rparr>]"
  using two_hunk_lines two_hunk_changes by (rule conjI)

text \<open>
  C8, as amended. For every diff text, the contexts of the change records, in the order
  of the records, are the contexts \<open>window_context\<close> of the positions of the lines that
  push a change: the lines among the \<open>2 * 3 + 1\<close> around the position that start with a
  space, without that space, whatever hunk they are in. So a context has at most
  \<open>2 * 3 + 1\<close> lines, each of them an unmarked line of the text and none an addition or
  a deletion. It may be empty.
\<close>

theorem contextLines_window:
  "map contextLines (parseDiffOutput diffOutput) =
     map (window_context (split_nl diffOutput))
       (filter (\<lambda>i. emits (split_nl diffOutput ! i)) [0 ..< length (split_nl diffOutput)])
   \<and> (\<forall>r \<in> set (parseDiffOutput diffOutput).
        length (contextLines r) \<le> 2 * 3 + 1
        \<and> (\<forall>c \<in> set (contextLines r).
              CHR '' '' # c \<in> set (split_nl diffOutput) \<and> \<not> emits (CHR '' '' # c)))"
proof -
  let ?lines = "split_nl diffOutput"
  have eq: "map contextLines (parseDiffOutput diffOutput) =
     map (window_context ?lines) (filter (\<lambda>i. emits (?lines ! i)) [0 ..< length ?lines])"
    unfolding parseDiffOutput_def Let_def
    using parse_loop_contexts [of ?lines 0 ?lines "Num 0"]
    by (simp add: getContextLines_window)
  have "\<forall>r \<in> set (parseDiffOutput diffOutput).
        length (contextLines r) \<le> 2 * 3 + 1
        \<and> (\<forall>c \<in> set (contextLines r).
              CHR '' '' # c \<in> set ?lines \<and> \<not> emits (CHR '' '' # c))"
  proof
    fix r assume "r \<in> set (parseDiffOutput diffOutput)"
    then have "contextLines r \<in> set (map contextLines (parseDiffOutput diffOutput))" by simp
    then obtain i where r: "contextLines r = window_context ?lines i"
      unfolding eq by auto
    have "length (contextLines r) \<le> 2 * 3 + 1"
      using window_context_length [of ?lines i] r by simp
    moreover have "\<forall>c \<in> set (contextLines r).
              CHR '' '' # c \<in> set ?lines \<and> \<not> emits (CHR '' '' # c)"
    proof
      fix c assume "c \<in> set (contextLines r)"
      with r obtain j where "j < length ?lines" "?lines ! j = CHR '' '' # c"
        using window_context_member by metis
      then have "CHR '' '' # c \<in> set ?lines" by (metis nth_mem)
      moreover have "\<not> emits (CHR '' '' # c)"
        by (simp add: emits_def is_addition_def is_deletion_def)
      ultimately show "CHR '' '' # c \<in> set ?lines \<and> \<not> emits (CHR '' '' # c)" by simp
    qed
    ultimately show "length (contextLines r) \<le> 2 * 3 + 1
        \<and> (\<forall>c \<in> set (contextLines r).
              CHR '' '' # c \<in> set ?lines \<and> \<not> emits (CHR '' '' # c))" by simp
  qed
  with eq show ?thesis by simp
qed


theorem contextLines_window_witness:
  "\<lparr> changeType = Addition, lineNumber = Num 10, content = ''b'', contextLines = [''a''] \<rparr>
     \<in> set (parseDiffOutput two_hunk_diff)
   \<and> map contextLines (parseDiffOutput two_hunk_diff) =
       map (window_context (split_nl two_hunk_diff))
         (filter (\<lambda>i. emits (split_nl two_hunk_diff ! i)) [0 ..< length (split_nl two_hunk_diff)])
   \<and> length [''a''] \<le> 2 * 3 + (1::nat)
   \<and> '' a'' \<in> set (split_nl two_hunk_diff)
   \<and> \<not> emits '' a''"
  using contextLines_window [of two_hunk_diff] two_hunk_changes by simp

text \<open>The context of a change with no unmarked line around it is empty.\<close>

lemma context_may_be_empty:
  "parseDiffOutput ''+x'' =
     [\<lparr> changeType = Addition, lineNumber = Num 0, content = ''x'', contextLines = [] \<rparr>]"
  by code_simp

section \<open>Deletions and the line counter\<close>


lemma m_Chr_here: "m (Chr a) False k (pre, a # rest, caps) = k (a # pre, rest, caps)"
  by (simp add: one_char_def canonicalize_def)

lemma m_seq_list_Chr:
  "m (seq_list (map Chr w)) False k (pre, w @ rest, caps) = k (rev w @ pre, rest, caps)"
proof (induction w arbitrary: pre)
  case Nil
  then show ?case by simp
next
  case (Cons a w)
  show ?case
  proof (cases w)
    case Nil
    then show ?thesis using m_Chr_here by simp
  next
    case (Cons b w')
    then have "seq_list (map Chr (a # w)) = Seq (Chr a) (seq_list (map Chr w))" by simp
    then show ?thesis
      using Cons.IH [of "a # pre"] by (simp add: one_char_def canonicalize_def)
  qed
qed

lemma m_lit: "m (lit w) False k (pre, w @ rest, caps) = k (rev w @ pre, rest, caps)"
  unfolding lit_def by (rule m_seq_list_Chr)

lemma m_digit_cons:
  "m digit False k (pre, x # xs, caps) = (if is_digit x then k (x # pre, xs, caps) else None)"
  by (simp add: digit_def one_char_def class_has_def)

lemma m_digit_stop: "rest = [] \<or> \<not> is_digit (hd rest) \<Longrightarrow> m digit False k (pre, rest, caps) = None"
  by (cases rest) (auto simp: digit_def one_char_def class_has_def)

lemma star_digits:
  assumes "list_all is_digit ds" and "rest = [] \<or> \<not> is_digit (hd rest)"
    and "k (rev ds @ pre, rest, caps) = Some r"
  shows "star True (m digit False) k (pre, ds @ rest, caps) = Some r"
  using assms
proof (induction ds arbitrary: pre)
  case Nil
  then show ?case
    by (subst star.simps) (simp add: m_digit_stop)
next
  case (Cons x ds)
  from Cons.prems have "star True (m digit False) k (x # pre, ds @ rest, caps) = Some r"
    by (intro Cons.IH) simp_all
  with Cons.prems(1) show ?case
    by (subst star.simps) (simp add: m_digit_cons remaining_def)
qed

lemma m_Star_digits:
  assumes "list_all is_digit ds" and "rest = [] \<or> \<not> is_digit (hd rest)"
    and "k (rev ds @ pre, rest, caps) = Some r"
  shows "m (Star True digit) False k (pre, ds @ rest, caps) = Some r"
  using assms by (simp add: star_digits)

lemma m_Plus_digits:
  assumes "list_all is_digit ds" and "ds \<noteq> []" and "rest = [] \<or> \<not> is_digit (hd rest)"
    and "k (rev ds @ pre, rest, caps) = Some r"
  shows "m (Plus digit) False k (pre, ds @ rest, caps) = Some r"
proof -
  from assms(2) obtain x xs where ds: "ds = x # xs" by (cases ds) auto
  with assms have "star True (m digit False) k (x # pre, xs @ rest, caps) = Some r"
    by (intro star_digits) simp_all
  with assms(1) ds show ?thesis by (simp add: m_digit_cons)
qed

lemma m_Opt_Chr_absent:
  "rest = [] \<or> hd rest \<noteq> a \<Longrightarrow> m (Opt (Chr a)) False k (pre, rest, caps) = k (pre, rest, caps)"
  by (cases rest) (auto simp: one_char_def canonicalize_def)

lemma m_Opt_Chr_present:
  "k (a # pre, rest, caps) = Some r \<Longrightarrow> m (Opt (Chr a)) False k (pre, a # rest, caps) = Some r"
  by (simp add: one_char_def canonicalize_def remaining_def)

lemma m_count_part:
  assumes "count_part b" and "rest \<noteq> [] \<and> hd rest = CHR '' ''"
    and "k (rev b @ pre, rest, caps) = Some r"
  shows "m (Opt (Chr (CHR '',''))) False (m (Star True digit) False k) (pre, b @ rest, caps) = Some r"
proof (cases b)
  case Nil
  from assms(2) have nd: "rest = [] \<or> \<not> is_digit (hd rest)" by (simp add: is_digit_def)
  from assms(2) have nc: "rest = [] \<or> hd rest \<noteq> CHR '',''" by simp
  have "m (Star True digit) False k (pre, [] @ rest, caps) = Some r"
    using assms(3) Nil nd by (intro m_Star_digits) simp_all
  with Nil show ?thesis by (simp only: m_Opt_Chr_absent [OF nc] append_Nil)
next
  case (Cons x bs)
  with assms(1) have x: "x = CHR '',''" and bs: "list_all is_digit bs"
    by (simp_all add: count_part_def)
  from assms(2) have nd: "rest = [] \<or> \<not> is_digit (hd rest)" by (simp add: is_digit_def)
  have "m (Star True digit) False k (CHR '','' # pre, bs @ rest, caps) = Some r"
    using assms(3) Cons x bs nd by (intro m_Star_digits) simp_all
  then have "m (Opt (Chr (CHR '',''))) False (m (Star True digit) False k)
      (pre, CHR '','' # bs @ rest, caps) = Some r"
    by (rule m_Opt_Chr_present)
  with Cons x show ?thesis by simp
qed

lemma m_Grp_Plus_digits:
  assumes "list_all is_digit ds" and "ds \<noteq> []" and "rest = [] \<or> \<not> is_digit (hd rest)"
    and "k (rev ds @ pre, rest, caps(n \<mapsto> ds)) = Some r"
  shows "m (Grp n (Plus digit)) False k (pre, ds @ rest, caps) = Some r"
proof -
  let ?k = "\<lambda>st'. case st' of (pre', rest', caps') \<Rightarrow>
       k (pre', rest', caps'(n \<mapsto> take (length (ds @ rest) - length rest') (ds @ rest)))"
  have "?k (rev ds @ pre, rest, caps) = Some r" using assms(4) by simp
  then have "m (Plus digit) False ?k (pre, ds @ rest, caps) = Some r"
    by (rule m_Plus_digits [OF assms(1-3)])
  then show ?thesis by (simp add: remaining_def)
qed

text \<open>
  The hunk pattern on a header of the unified format: every greedy repetition takes its
  whole run of digits, the match starts at the first character, and the capture is the
  new start.
\<close>

lemma count_part_next: "count_part b \<Longrightarrow> b @ CHR '' '' # rest = [] \<or> \<not> is_digit (hd (b @ CHR '' '' # rest))"
  by (cases b) (auto simp: count_part_def is_digit_def)

lemma hunk_regex_matches:
  assumes "list_all is_digit a" "a \<noteq> []" "count_part b"
    and "list_all is_digit c" "c \<noteq> []" "count_part d"
  shows "m hunk_regex False Some ([], hunk_header a b c d tail, Map.empty) =
     Some (rev (''@@ -'' @ a @ b @ '' +'' @ c @ d @ '' @@''), tail, [1 \<mapsto> c])"
proof -
  let ?k9 = "m (lit '' @@'') False Some"
  let ?k8 = "m (Star True digit) False ?k9"
  let ?k7 = "m (Opt (Chr (CHR '',''))) False ?k8"
  let ?k6 = "m (Grp 1 (Plus digit)) False ?k7"
  let ?k5 = "m (Chr (CHR ''+'')) False ?k6"
  let ?k4 = "m (Chr (CHR '' '')) False ?k5"
  let ?k3 = "m (Star True digit) False ?k4"
  let ?k2 = "m (Opt (Chr (CHR '',''))) False ?k3"
  let ?k1 = "m (Plus digit) False ?k2"
  let ?p1 = "rev ''@@ -''"
  let ?p2 = "rev a @ ?p1"
  let ?p3 = "rev b @ ?p2"
  let ?p5 = "CHR ''+'' # CHR '' '' # ?p3"
  let ?p6 = "rev c @ ?p5"
  let ?p7 = "rev d @ ?p6"
  let ?caps = "[1 \<mapsto> c]"
  let ?fin = "(rev '' @@'' @ ?p7, tail, ?caps)"
  have s9: "?k9 (?p7, '' @@'' @ tail, ?caps) = Some ?fin"
    by (rule m_lit)
  have s7: "?k7 (?p6, d @ '' @@'' @ tail, ?caps) = Some ?fin"
    using assms(6) s9
    by (intro m_count_part [where k = ?k9 and b = d and pre = ?p6 and r = ?fin]) simp_all
  have nd: "d @ '' @@'' @ tail = [] \<or> \<not> is_digit (hd (d @ '' @@'' @ tail))"
    using count_part_next [OF assms(6), of "''@@'' @ tail"] by simp
  have s6: "?k6 (?p5, c @ d @ '' @@'' @ tail, Map.empty) = Some ?fin"
    using assms(4,5) nd s7
    by (intro m_Grp_Plus_digits [where k = ?k7 and ds = c and pre = ?p5 and r = ?fin]) simp_all
  have s5: "?k5 (CHR '' '' # ?p3, CHR ''+'' # c @ d @ '' @@'' @ tail, Map.empty) = Some ?fin"
    by (simp only: m_Chr_here s6)
  have s4: "?k4 (?p3, CHR '' '' # CHR ''+'' # c @ d @ '' @@'' @ tail, Map.empty) = Some ?fin"
    by (simp only: m_Chr_here s6)
  have s2: "?k2 (?p2, b @ '' +'' @ c @ d @ '' @@'' @ tail, Map.empty) = Some ?fin"
    using assms(3) s4
    by (intro m_count_part [where k = ?k4 and b = b and pre = ?p2 and r = ?fin]) simp_all
  have nb: "b @ '' +'' @ c @ d @ '' @@'' @ tail = []
      \<or> \<not> is_digit (hd (b @ '' +'' @ c @ d @ '' @@'' @ tail))"
    using count_part_next [OF assms(3), of "''+'' @ c @ d @ '' @@'' @ tail"] by simp
  have s1: "?k1 (?p1, a @ b @ '' +'' @ c @ d @ '' @@'' @ tail, Map.empty) = Some ?fin"
    using assms(1,2) nb s2
    by (intro m_Plus_digits [where k = ?k2 and ds = a and pre = ?p1 and r = ?fin]) simp_all
  have s0: "m (lit ''@@ -'') False ?k1
      ([], ''@@ -'' @ a @ b @ '' +'' @ c @ d @ '' @@'' @ tail, Map.empty) = Some ?fin"
    using s1 by (simp only: m_lit append_Nil2)
  have fin: "?fin = (rev (''@@ -'' @ a @ b @ '' +'' @ c @ d @ '' @@''), tail, [1 \<mapsto> c])"
    by simp
  show ?thesis
    unfolding hunk_regex_def hunk_header_def
    by (simp only: seq_list.simps m_Seq s0 fin)
qed

lemma hunk_header_regex_match:
  assumes "list_all is_digit a" "a \<noteq> []" "count_part b"
    and "list_all is_digit c" "c \<noteq> []" "count_part d"
  shows "regex_match False hunk_regex (hunk_header a b c d tail) = Some [1 \<mapsto> c]"
proof -
  obtain x xs where h: "hunk_header a b c d tail = x # xs"
    by (cases "hunk_header a b c d tail") (auto simp: hunk_header_def)
  have "exec_from False hunk_regex [] (hunk_header a b c d tail) =
      Some ([], rev (''@@ -'' @ a @ b @ '' +'' @ c @ d @ '' @@''), tail, [1 \<mapsto> c])"
    using hunk_regex_matches [OF assms, of tail] unfolding h by simp
  then show ?thesis
    by (simp add: regex_match_def regex_exec_def)
qed

lemma split_from_line: "newline \<notin> set l \<Longrightarrow> split_from piece l = [rev piece @ l]"
  by (induction l arbitrary: piece) auto

lemma split_from_line_more:
  "newline \<notin> set l \<Longrightarrow> split_from piece (l @ newline # rest) = (rev piece @ l) # split_from [] rest"
  by (induction l arbitrary: piece) auto

lemma split_nl_join_nl:
  "ls \<noteq> [] \<Longrightarrow> \<forall>l \<in> set ls. newline \<notin> set l \<Longrightarrow> split_nl (join_nl ls) = ls"
proof (induction ls rule: join_nl.induct)
  case 1
  then show ?case by simp
next
  case (2 l)
  then show ?case by (simp add: split_nl_def split_from_line)
next
  case (3 l l' ls)
  then have "split_nl (join_nl (l' # ls)) = l' # ls" by simp
  with "3.prems" show ?case
    by (simp add: split_nl_def split_from_line_more)
qed

lemma parse_loop_silent:
  "\<forall>l \<in> set pre. \<not> emits l \<Longrightarrow>
   \<exists>c. parse_loop lines i (pre @ rest) cur = parse_loop lines (i + length pre) rest c"
proof (induction pre arbitrary: i cur)
  case Nil
  show ?case by (intro exI [of _ cur]) simp
next
  case (Cons l pre)
  then have "\<not> emits l" by simp
  with parse_loop_step [of lines i l "pre @ rest" cur]
  obtain c where c: "parse_loop lines i (l # pre @ rest) cur = parse_loop lines (Suc i) (pre @ rest) c"
    by auto
  from Cons obtain c' where
    "parse_loop lines (Suc i) (pre @ rest) c = parse_loop lines (Suc i + length pre) rest c'"
    by fastforce
  with c show ?case by auto
qed

lemma parse_loop_header:
  "startsWith h ''@@'' \<Longrightarrow> regex_match False hunk_regex h = Some caps \<Longrightarrow>
   parse_loop lines i (h # rest) cur = parse_loop lines (Suc i) rest (parseInt10_capture (caps 1))"
  by simp

lemma is_deletion_branch:
  "is_deletion l \<Longrightarrow> \<not> startsWith l ''@@'' \<and> \<not> startsWith l ''+'' \<and> startsWith l ''-'' \<and> \<not> startsWith l ''---''"
  by (cases l) (auto simp: is_deletion_def)

lemma parse_loop_deletions:
  "\<forall>l \<in> set body. is_deletion l \<Longrightarrow> \<forall>l \<in> set post. \<not> emits l \<Longrightarrow>
   map lineNumber (parse_loop lines i (body @ post) cur) = replicate (length body) cur
   \<and> map changeType (parse_loop lines i (body @ post) cur) = replicate (length body) Deletion
   \<and> map content (parse_loop lines i (body @ post) cur) = map substring1 body"
proof (induction body arbitrary: i)
  case Nil
  from parse_loop_silent [OF Nil(2), of lines i "[]" cur] show ?case by simp
next
  case (Cons l body)
  then have "is_deletion l" by simp
  then have "parse_loop lines i (l # body @ post) cur =
      \<lparr> changeType = Deletion, lineNumber = cur, content = substring1 l,
        contextLines = getContextLines lines i 3 \<rparr> # parse_loop lines (i + 1) (body @ post) cur"
    using is_deletion_branch [of l] by simp
  moreover from Cons have
    "map lineNumber (parse_loop lines (i + 1) (body @ post) cur) = replicate (length body) cur
     \<and> map changeType (parse_loop lines (i + 1) (body @ post) cur) = replicate (length body) Deletion
     \<and> map content (parse_loop lines (i + 1) (body @ post) cur) = map substring1 body"
    by simp
  ultimately show ?case by simp
qed

text \<open>
  A number below \<open>2^53\<close> has at most 53 binary digits, so it is its own double, and
  \<^verbatim>\<open>parseInt\<close> of its digits is exact. Above, \<^verbatim>\<open>parseInt\<close> rounds:
  \<^verbatim>\<open>parseInt("9007199254740993", 10)\<close> is 9007199254740992.
\<close>

lemma bit_length_bound: "n < 2 ^ k \<Longrightarrow> bit_length n \<le> k"
proof (induction k arbitrary: n)
  case 0
  then show ?case by simp
next
  case (Suc k)
  then have "n div 2 < 2 ^ k" by simp
  then have "bit_length (n div 2) \<le> k" by (rule Suc.IH)
  then show ?case by simp
qed

lemma round_double_exact: "n < 2 ^ 53 \<Longrightarrow> round_double n = Num n"
  unfolding round_double_def using bit_length_bound [of n 53] by simp

lemma parseInt10_exact:
  assumes "list_all is_digit c" and "c \<noteq> []" and "digits_value c < 2 ^ 53"
  shows "parseInt10 c = Num (digits_value c)"
proof -
  from assms(1) have digits: "takeWhile is_digit c = c"
    by (simp add: list_all_iff)
  from assms(3) have "round_double (digits_value c) = Num (digits_value c)"
    by (rule round_double_exact)
  with assms(2) show ?thesis
    unfolding parseInt10_def digits by simp
qed

lemma digits_value_example: "digits_value ''9007199254740993'' = 9007199254740993"
  by (simp add: digits_value_def)

lemma bit_length_example: "bit_length 9007199254740993 = 54"
  by (simp add: bit_length.simps [of "numeral k" for k])

lemma parseInt10_rounds: "parseInt10 ''9007199254740993'' = Num 9007199254740992"
proof -
  have "takeWhile is_digit ''9007199254740993'' = ''9007199254740993''"
    by (simp add: is_digit_def)
  then show ?thesis
    by (simp add: parseInt10_def digits_value_example round_double_def bit_length_example)
qed

text \<open>
  The deletions of a hunk all have the number that \<^verbatim>\<open>parseInt\<close> reads in the header as
  their line number, whatever the digits \<open>c\<close> of the new start.
\<close>

lemma deletions_after_header:
  assumes "list_all is_digit a" and "a \<noteq> []" and "count_part b"
    and "list_all is_digit c" and "c \<noteq> []" and "count_part d"
    and "\<forall>l \<in> set (pre @ hunk_header a b c d tail # body @ post). newline \<notin> set l"
    and "\<forall>l \<in> set pre. \<not> emits l"
    and "\<forall>l \<in> set body. is_deletion l"
    and "\<forall>l \<in> set post. \<not> emits l"
  shows "map lineNumber (parseDiffOutput (join_nl (pre @ hunk_header a b c d tail # body @ post)))
           = replicate (length body) (parseInt10 c)
     \<and> map changeType (parseDiffOutput (join_nl (pre @ hunk_header a b c d tail # body @ post)))
           = replicate (length body) Deletion
     \<and> map content (parseDiffOutput (join_nl (pre @ hunk_header a b c d tail # body @ post)))
           = map substring1 body"
proof -
  let ?h = "hunk_header a b c d tail"
  let ?lines = "pre @ ?h # body @ post"
  have lines: "split_nl (join_nl ?lines) = ?lines"
    using assms(7) by (intro split_nl_join_nl) simp_all
  obtain c0 where c0: "parse_loop ?lines 0 (pre @ ?h # body @ post) (Num 0) =
      parse_loop ?lines (0 + length pre) (?h # body @ post) c0"
    using parse_loop_silent [OF assms(8)] by blast
  have sw: "startsWith ?h ''@@''"
    by (simp add: hunk_header_def)
  have "parse_loop ?lines (0 + length pre) (?h # body @ post) c0 =
      parse_loop ?lines (Suc (0 + length pre)) (body @ post)
        (parseInt10_capture ([1 \<mapsto> c] (1::nat)))"
    by (rule parse_loop_header [OF sw hunk_header_regex_match [OF assms(1-6)]])
  then have h: "parse_loop ?lines (0 + length pre) (?h # body @ post) c0 =
      parse_loop ?lines (Suc (0 + length pre)) (body @ post) (parseInt10 c)"
    by (simp add: parseInt10_capture_def)
  have "parseDiffOutput (join_nl ?lines) =
      parse_loop ?lines (Suc (0 + length pre)) (body @ post) (parseInt10 c)"
    unfolding parseDiffOutput_def Let_def lines c0 h ..
  then show ?thesis
    using parse_loop_deletions [OF assms(9,10)] by simp
qed

text \<open>
  C7. For every diff of one hunk whose lines after the header are all deletion lines
  (lines that start with \<^verbatim>\<open>-\<close> and not with \<^verbatim>\<open>---\<close>), where the new start \<open>c\<close> that
  the header declares is a number below \<open>2^53\<close>, which a JavaScript number holds
  exactly: there is one record for each of these lines, each is a deletion, and each
  has the declared new start, the number \<open>digits_value c\<close> that the digits \<open>c\<close> denote,
  as its line number, since a deletion does not advance the counter. The header may be
  preceded by lines that push no change (the \<^verbatim>\<open>diff\<close>, \<^verbatim>\<open>index\<close>, \<^verbatim>\<open>---\<close> and \<^verbatim>\<open>+++\<close>
  lines of git) and the deletions followed by such lines (the empty piece after a last
  line feed).
\<close>

theorem deletions_share_new_start:
  assumes "list_all is_digit a" and "a \<noteq> []" and "count_part b"
    and "list_all is_digit c" and "c \<noteq> []" and "count_part d"
    and "digits_value c < 2 ^ 53"
    and "\<forall>l \<in> set (pre @ hunk_header a b c d tail # body @ post). newline \<notin> set l"
    and "\<forall>l \<in> set pre. \<not> emits l"
    and "\<forall>l \<in> set body. is_deletion l"
    and "\<forall>l \<in> set post. \<not> emits l"
  shows "map lineNumber (parseDiffOutput (join_nl (pre @ hunk_header a b c d tail # body @ post)))
           = replicate (length body) (Num (digits_value c))
     \<and> map changeType (parseDiffOutput (join_nl (pre @ hunk_header a b c d tail # body @ post)))
           = replicate (length body) Deletion
     \<and> map content (parseDiffOutput (join_nl (pre @ hunk_header a b c d tail # body @ post)))
           = map substring1 body"
  using deletions_after_header [OF assms(1-6) assms(8-11)] parseInt10_exact [OF assms(4,5,7)]
  by simp

lemma digits_value_five: "digits_value ''5'' = 5"
  by (simp add: digits_value_def)

theorem deletions_share_new_start_witness:
  "map lineNumber (parseDiffOutput (join_nl
      [''--- a/x'', ''+++ b/x'', ''@@ -5,3 +5,0 @@'', ''-x'', ''-y'', ''-z'', [] ]))
      = [Num 5, Num 5, Num 5]
   \<and> map changeType (parseDiffOutput (join_nl
      [''--- a/x'', ''+++ b/x'', ''@@ -5,3 +5,0 @@'', ''-x'', ''-y'', ''-z'', [] ]))
      = [Deletion, Deletion, Deletion]
   \<and> map content (parseDiffOutput (join_nl
      [''--- a/x'', ''+++ b/x'', ''@@ -5,3 +5,0 @@'', ''-x'', ''-y'', ''-z'', [] ]))
      = [''x'', ''y'', ''z'']"
  using deletions_share_new_start
    [where a = "''5''" and b = "'',3''" and c = "''5''" and d = "'',0''" and tail = "[]"
       and pre = "[''--- a/x'', ''+++ b/x'']" and body = "[''-x'', ''-y'', ''-z'']"
       and post = "[[]]"]
  by (simp add: hunk_header_def count_part_def is_digit_def emits_def is_deletion_def
      is_addition_def digits_value_five newline_def substring1_def)

text \<open>
  A new start that no JavaScript number holds: the deletion has the number
  that \<^verbatim>\<open>parseInt\<close> rounds it to.
\<close>

lemma deletion_beyond_safe_integers:
  "map lineNumber (parseDiffOutput (join_nl [''@@ -1 +9007199254740993 @@'', ''-x'']))
     = [Num 9007199254740992]"
  using deletions_after_header
    [where a = "''1''" and b = "[]" and c = "''9007199254740993''" and d = "[]" and tail = "[]"
       and pre = "[]" and body = "[''-x'']" and post = "[]"]
  by (simp add: hunk_header_def count_part_def is_digit_def is_deletion_def
      parseInt10_rounds newline_def)

section \<open>Malformed patterns\<close>

lemma replace_star_append: "replace_star (xs @ ys) = replace_star xs @ replace_star ys"
  by (induction xs) simp_all

lemma replace_question_append:
  "replace_question (xs @ ys) = replace_question xs @ replace_question ys"
  by (induction xs) simp_all

lemma emit_emit: "emit ts (emit ts' r) = emit (ts @ ts') r"
  by (cases r) (simp_all add: emit_def)

lemma scan_not_separator:
  "scan Top (''[^/]'' @ rest) = emit [TAtom not_separator] (scan Top rest)"
  by (simp add: step_top_def step_class_def backslash_def not_separator_def emit_def
      split: sum.splits)

lemma scan_star: "scan Top (CHR ''*'' # rest) = emit [TStar] (scan Top rest)"
  by (simp add: step_top_def backslash_def emit_def split: sum.splits)

lemma scan_dot: "scan Top (CHR ''.'' # rest) = emit [TAtom Dot] (scan Top rest)"
  by (simp add: step_top_def backslash_def emit_def split: sum.splits)

lemma scan_plain:
  "plain_char c \<Longrightarrow> c \<noteq> CHR ''*'' \<Longrightarrow> c \<noteq> CHR ''?'' \<Longrightarrow>
   scan Top (c # rest) = emit [plain_token c] (scan Top rest)"
  by (simp add: step_top_def plain_char_def plain_token_def emit_def split: sum.splits)

lemma scan_char_tokens:
  "plain_char c \<Longrightarrow>
   scan Top (replace_question (replace_star [c]) @ rest) = emit (char_tokens c) (scan Top rest)"
proof -
  assume p: "plain_char c"
  consider "c = CHR ''*''" | "c = CHR ''?''" | "c \<noteq> CHR ''*''" "c \<noteq> CHR ''?''" by blast
  then show ?thesis
  proof cases
    case 1
    have "scan Top (''[^/]'' @ CHR ''*'' # rest) = emit [TAtom not_separator, TStar] (scan Top rest)"
      by (simp only: scan_not_separator scan_star emit_emit) simp
    with 1 show ?thesis by (simp add: char_tokens_def)
  next
    case 2
    with scan_not_separator [of rest] show ?thesis by (simp add: char_tokens_def)
  next
    case 3
    with p scan_plain [of c rest] show ?thesis by (simp add: char_tokens_def)
  qed
qed

lemma scan_glob_source:
  "\<forall>c \<in> set pattern. plain_char c \<Longrightarrow>
   scan Top (glob_source pattern @ rest) = emit (glob_tokens pattern) (scan Top rest)"
proof (induction pattern rule: glob_tokens.induct)
  case (1 a b cs)
  show ?case
  proof (cases "a = CHR ''*'' \<and> b = CHR ''*''")
    case True
    have IH: "scan Top (glob_source cs @ rest) = emit (glob_tokens cs) (scan Top rest)"
      using "1.IH"(1) [OF True] "1.prems" by simp
    have "glob_source (a # b # cs) @ rest = CHR ''.'' # ''[^/]'' @ CHR ''*'' # glob_source cs @ rest"
      using True by (simp add: glob_source_def replace_star_append replace_question_append)
    then have "scan Top (glob_source (a # b # cs) @ rest) =
        emit [TAtom Dot, TAtom not_separator, TStar] (scan Top (glob_source cs @ rest))"
      by (simp only: scan_dot scan_not_separator scan_star emit_emit) simp
    with True IH show ?thesis by (simp add: emit_emit)
  next
    case False
    have IH: "scan Top (glob_source (b # cs) @ rest) = emit (glob_tokens (b # cs)) (scan Top rest)"
      using "1.IH"(2) [OF False] "1.prems" by simp
    have "glob_source (a # b # cs) @ rest =
        replace_question (replace_star [a]) @ glob_source (b # cs) @ rest"
      using False by (simp add: glob_source_def)
    moreover have "plain_char a" using "1.prems" by simp
    ultimately have "scan Top (glob_source (a # b # cs) @ rest) =
        emit (char_tokens a) (scan Top (glob_source (b # cs) @ rest))"
      by (simp only: scan_char_tokens)
    with False IH show ?thesis by (auto simp: emit_emit)
  qed
next
  case (2 a)
  then have "plain_char a" by simp
  from scan_char_tokens [OF this, of rest] show ?case by (simp add: glob_source_def)
next
  case 3
  then show ?case by (simp add: glob_source_def emit_def split: sum.splits)
qed


lemma parse_char_tokens:
  "\<exists>alts' terms'. parse stack alts terms n (char_tokens c @ ts) = parse stack alts' terms' n ts"
  by (auto simp: char_tokens_def plain_token_def)

lemma parse_glob_tokens:
  "\<exists>alts' terms'. parse stack alts terms n (glob_tokens pattern @ ts) = parse stack alts' terms' n ts"
proof (induction pattern arbitrary: alts terms rule: glob_tokens.induct)
  case (1 a b cs)
  show ?case
  proof (cases "a = CHR ''*'' \<and> b = CHR ''*''")
    case True
    have "parse stack alts terms n (glob_tokens (a # b # cs) @ ts) =
        parse stack alts ((Star True not_separator, False) # (Dot, True) # terms) n
          (glob_tokens cs @ ts)"
      using True by simp
    with "1.IH"(1) [OF True] show ?thesis by simp
  next
    case False
    obtain alts1 terms1 where
      "parse stack alts terms n (char_tokens a @ glob_tokens (b # cs) @ ts) =
         parse stack alts1 terms1 n (glob_tokens (b # cs) @ ts)"
      using parse_char_tokens by blast
    with "1.IH"(2) [OF False, of alts1 terms1] False show ?thesis by auto
  qed
next
  case (2 a)
  show ?case using parse_char_tokens by simp
next
  case 3
  show ?case by auto
qed

lemma RegExp_new_glob_source:
  assumes "\<forall>c \<in> set pattern. plain_char c"
  shows "\<exists>re. RegExp_new (''^'' @ glob_source pattern @ ''$'') = Inr re"
proof -
  have "scan Top (''^'' @ glob_source pattern @ ''$'') =
      emit [TAssert Bol] (scan Top (glob_source pattern @ ''$''))"
    by (simp add: step_top_def backslash_def emit_def split: sum.splits)
  also have "scan Top (glob_source pattern @ ''$'') = emit (glob_tokens pattern) (scan Top ''$'')"
    by (rule scan_glob_source [OF assms])
  also have "scan Top ''$'' = Inr [TAssert Eol]"
    by (simp add: step_top_def backslash_def)
  finally have l: "scan Top (''^'' @ glob_source pattern @ ''$'') =
      Inr (TAssert Bol # glob_tokens pattern @ [TAssert Eol])"
    by (simp add: emit_def)
  obtain alts terms where
    "parse [] [] [(Bol, False)] 0 (glob_tokens pattern @ [TAssert Eol]) =
       parse [] alts terms 0 [TAssert Eol]"
    using parse_glob_tokens by blast
  then have "parse [] [] [] 0 (TAssert Bol # glob_tokens pattern @ [TAssert Eol]) =
      Inr (close_alts alts ((Eol, False) # terms))"
    by simp
  with l show ?thesis by (simp add: RegExp_new_def)
qed

lemma RegExp_new_open_paren: "RegExp_new ''^($'' = Inl SyntaxError"
  by code_simp

lemma RegExp_new_open_bracket: "RegExp_new ''^[$'' = Inl SyntaxError"
  by code_simp

lemma matchesPattern_open_paren: "matchesPattern filePath ''('' = Inl SyntaxError"
  by (simp add: matchesPattern_def glob_source_def RegExp_new_open_paren)

lemma matchesPattern_open_bracket: "matchesPattern filePath ''['' = Inl SyntaxError"
  by (simp add: matchesPattern_def glob_source_def RegExp_new_open_bracket)

text \<open>
  C3. The claim: for every pattern, also a malformed one, the predicate never throws,
  and a malformed pattern is a predicate that is false on every path. It fails:
  \<^verbatim>\<open>matchesPattern\<close> calls \<^verbatim>\<open>new RegExp\<close> with no handler around it, here or in its
  callers, so the SyntaxError of the source \<^verbatim>\<open>^($\<close> is what the evaluation ends in.
\<close>

theorem matchesPattern_throw_counterexample:
  "matchesPattern ''src/file.ts'' ''('' = Inl SyntaxError
   \<and> matchesPattern ''src/file.ts'' ''('' \<noteq> Inr False"
  using matchesPattern_open_paren [of "''src/file.ts''"] by simp

text \<open>
  C3, as amended. For every pattern of plain characters and wildcards (no parenthesis,
  no \<^verbatim>\<open>[\<close>, \<^verbatim>\<open>{\<close>, \<^verbatim>\<open>+\<close> or backslash) the source compiles, and the predicate
  returns a truth value on every path. A pattern that throws on one path throws the
  same on every path: the patterns \<^verbatim>\<open>(\<close> and \<^verbatim>\<open>[\<close> throw a SyntaxError on every
  path.
\<close>

theorem matchesPattern_throws:
  "((\<forall>c \<in> set pattern. plain_char c) \<longrightarrow> (\<exists>b. matchesPattern filePath pattern = Inr b))
   \<and> (matchesPattern filePath pattern = Inl e \<longrightarrow> (\<forall>path. matchesPattern path pattern = Inl e))
   \<and> matchesPattern filePath ''('' = Inl SyntaxError
   \<and> matchesPattern filePath ''['' = Inl SyntaxError"
proof (intro conjI impI)
  assume "\<forall>c \<in> set pattern. plain_char c"
  then obtain re where "RegExp_new (''^'' @ glob_source pattern @ ''$'') = Inr re"
    using RegExp_new_glob_source by blast
  then show "\<exists>b. matchesPattern filePath pattern = Inr b"
    by (simp add: matchesPattern_def)
next
  assume "matchesPattern filePath pattern = Inl e"
  then show "\<forall>path. matchesPattern path pattern = Inl e"
    by (auto simp: matchesPattern_def split: sum.splits)
qed (rule matchesPattern_open_paren matchesPattern_open_bracket)+

theorem matchesPattern_throws_witness:
  "(\<exists>b. matchesPattern ''src/file.ts'' ''src/**/*.ts'' = Inr b)
   \<and> matchesPattern ''src/file.ts'' ''('' = Inl SyntaxError
   \<and> matchesPattern ''README.md'' ''('' = Inl SyntaxError"
proof -
  have plain: "\<forall>c \<in> set ''src/**/*.ts''. plain_char c"
    by (simp add: plain_char_def backslash_def)
  have "\<exists>b. matchesPattern ''src/file.ts'' ''src/**/*.ts'' = Inr b"
    using matchesPattern_throws [of "''src/**/*.ts''" "''src/file.ts''"] plain by blast
  moreover have thrown: "matchesPattern ''src/file.ts'' ''('' = Inl SyntaxError"
    using matchesPattern_throws [of "''(''" "''src/file.ts''"] by blast
  moreover have "matchesPattern ''README.md'' ''('' = Inl SyntaxError"
    using matchesPattern_throws [of "''(''" "''src/file.ts''" SyntaxError] thrown by blast
  ultimately show ?thesis by blast
qed

section \<open>Extraction on any text\<close>

lemma m_seq_list_Chr_ci:
  "\<not> ci_prefix w rest \<Longrightarrow> m (seq_list (map Chr w)) True k (pre, rest, caps) = None"
proof (induction w arbitrary: pre rest)
  case Nil
  then show ?case by simp
next
  case (Cons a w)
  show ?case
  proof (cases rest)
    case Nil
    then show ?thesis by (cases w) (simp_all add: one_char_def)
  next
    case (Cons x xs)
    show ?thesis
    proof (cases "canonicalize True x = canonicalize True a")
      case False
      with Cons show ?thesis by (cases w) (simp_all add: one_char_def)
    next
      case True
      with Cons Cons.prems have "\<not> ci_prefix w xs" by simp
      then have "m (seq_list (map Chr w)) True k (x # pre, xs, caps) = None"
        by (rule Cons.IH)
      with Cons True show ?thesis by (cases w) (simp_all add: one_char_def)
    qed
  qed
qed

lemma m_lit_ci: "\<not> ci_prefix w rest \<Longrightarrow> m (lit w) True k (pre, rest, caps) = None"
  unfolding lit_def by (rule m_seq_list_Chr_ci)

lemma ci_prefix_cong:
  "map (canonicalize True) w = map (canonicalize True) w' \<Longrightarrow> ci_prefix w s = ci_prefix w' s"
proof (induction w arbitrary: w' s)
  case Nil
  then show ?case by simp
next
  case (Cons a w)
  then obtain a' w'' where w': "w' = a' # w''"
    and a: "canonicalize True a = canonicalize True a'"
    and w: "map (canonicalize True) w = map (canonicalize True) w''"
    by (cases w') auto
  show ?case
  proof (cases s)
    case Nil
    with w' show ?thesis by simp
  next
    case (Cons x xs)
    from Cons.IH [OF w, of xs] a show ?thesis
      unfolding w' Cons by simp
  qed
qed

lemma m_two_headings:
  assumes "map (canonicalize True) h2 = map (canonicalize True) h1"
    and "\<not> ci_prefix h1 rest"
  shows "m (seq_list (alt_list (map lit [h1, h2]) # rs)) True k (pre, rest, caps) = None"
proof -
  from assms have "\<not> ci_prefix h2 rest" using ci_prefix_cong by blast
  with assms(2) have "\<And>k'. m (alt_list (map lit [h1, h2])) True k' (pre, rest, caps) = None"
    by (simp add: m_lit_ci)
  then show ?thesis by (cases rs) (simp_all add: m_Seq)
qed

lemma exec_from_no_occurrence:
  assumes "\<And>pre rest. \<not> ci_prefix w rest \<Longrightarrow> m re True Some (pre, rest, Map.empty) = None"
  shows "\<not> occurs_ci w s \<Longrightarrow> exec_from True re pre s = None"
proof (induction s arbitrary: pre)
  case Nil
  then show ?case by (simp add: assms)
next
  case (Cons x s)
  then show ?case by (simp add: assms)
qed

lemma regex_match_two_headings:
  assumes "map (canonicalize True) h2 = map (canonicalize True) h1"
    and "\<not> occurs_ci h1 s"
  shows "regex_match True (seq_list (alt_list (map lit [h1, h2]) # rs)) s = None"
proof -
  have "exec_from True (seq_list (alt_list (map lit [h1, h2]) # rs)) [] s = None"
    using assms(2)
    by (rule exec_from_no_occurrence [rotated]) (rule m_two_headings [OF assms(1)])
  then show ?thesis by (simp add: regex_match_def regex_exec_def)
qed

lemma canon_summary: "map (canonicalize True) ''SUMMARY'' = map (canonicalize True) ''Summary''"
  by code_simp

lemma canon_purpose: "map (canonicalize True) ''PURPOSE'' = map (canonicalize True) ''Purpose''"
  by code_simp

lemma canon_impact: "map (canonicalize True) ''IMPACT'' = map (canonicalize True) ''Impact''"
  by code_simp

lemma canon_documentation:
  "map (canonicalize True) ''DOCUMENTATION'' = map (canonicalize True) ''Documentation''"
  by code_simp

lemma canon_keyChanges:
  "map (canonicalize True) ''KEY CHANGES'' = map (canonicalize True) ''Key Changes''"
  by code_simp

lemma canon_suggestions:
  "map (canonicalize True) ''SUGGESTIONS'' = map (canonicalize True) ''Suggestions''"
  by code_simp

lemma section_regex_no_heading:
  "map (canonicalize True) h2 = map (canonicalize True) h1 \<Longrightarrow> \<not> occurs_ci h1 s \<Longrightarrow>
   regex_match True (section_regex [h1, h2] stops) s = None"
  unfolding section_regex_def by (rule regex_match_two_headings)

lemma no_summary:
  "\<not> occurs_ci ''Summary'' s \<Longrightarrow> section_text summary_regex s = Inr None"
  unfolding summary_regex_def section_text_def
  by (simp add: section_regex_no_heading [OF canon_summary])

lemma no_purpose:
  "\<not> occurs_ci ''Purpose'' s \<Longrightarrow> section_text purpose_regex s = Inr None"
  unfolding purpose_regex_def section_text_def
  by (simp add: section_regex_no_heading [OF canon_purpose])

lemma no_impact:
  "\<not> occurs_ci ''Impact'' s \<Longrightarrow> section_text impact_regex s = Inr None"
  unfolding impact_regex_def section_text_def
  by (simp add: section_regex_no_heading [OF canon_impact])

lemma no_documentation:
  "\<not> occurs_ci ''Documentation'' s \<Longrightarrow> section_text doc_regex s = Inr None"
  unfolding doc_regex_def section_text_def
  by (simp add: section_regex_no_heading [OF canon_documentation])

lemma no_keyChanges:
  "\<not> occurs_ci ''Key Changes'' s \<Longrightarrow> section_items keyChanges_regex s = Inr None"
  unfolding keyChanges_regex_def section_items_def
  by (simp add: section_regex_no_heading [OF canon_keyChanges])

lemma no_suggestions:
  "\<not> occurs_ci ''Suggestions'' s \<Longrightarrow> section_items suggestions_regex s = Inr None"
proof -
  assume "\<not> occurs_ci ''Suggestions'' s"
  then have "regex_match True suggestions_regex s = None"
    unfolding suggestions_regex_def by (rule regex_match_two_headings [OF canon_suggestions])
  then show ?thesis by (simp add: section_items_def)
qed

text \<open>
  C9. For every input, section extraction returns a record of sections and throws
  nothing. Each of its six matches is a run of the backtracking matcher, whose
  repetitions end because an iteration must consume input; the one step that can
  throw, a method called on the capture \<^verbatim>\<open>match[1]\<close>, never finds it \<^verbatim>\<open>undefined\<close>,
  since every match of each of the six patterns goes through its group. In the
  record, a section whose heading word occurs nowhere in the text (whatever the case
  of its letters) is absent; a text with none of the six heading words gives the
  record with every section absent, which is the worst case.
\<close>

theorem extractSections_never_throws:
  "\<exists>secs. extractSections response = Inr secs
     \<and> (\<not> occurs_ci ''Summary'' response \<longrightarrow> summary secs = None)
     \<and> (\<not> occurs_ci ''Purpose'' response \<longrightarrow> purpose secs = None)
     \<and> (\<not> occurs_ci ''Impact'' response \<longrightarrow> impact secs = None)
     \<and> (\<not> occurs_ci ''Documentation'' response \<longrightarrow> documentation secs = None)
     \<and> (\<not> occurs_ci ''Key Changes'' response \<longrightarrow> keyChanges secs = None)
     \<and> (\<not> occurs_ci ''Suggestions'' response \<longrightarrow> suggestions secs = None)
     \<and> (\<not> occurs_ci ''Summary'' response \<and> \<not> occurs_ci ''Purpose'' response
          \<and> \<not> occurs_ci ''Impact'' response \<and> \<not> occurs_ci ''Documentation'' response
          \<and> \<not> occurs_ci ''Key Changes'' response \<and> \<not> occurs_ci ''Suggestions'' response
          \<longrightarrow> secs = no_sections)"
  unfolding extractSections_returns
  by (simp add: no_sections_def no_summary no_purpose no_impact
      no_documentation no_keyChanges no_suggestions)

lemma hello_headingless:
  "\<not> occurs_ci ''Summary'' ''hello'' \<and> \<not> occurs_ci ''Purpose'' ''hello''
   \<and> \<not> occurs_ci ''Impact'' ''hello'' \<and> \<not> occurs_ci ''Documentation'' ''hello''
   \<and> \<not> occurs_ci ''Key Changes'' ''hello'' \<and> \<not> occurs_ci ''Suggestions'' ''hello''"
  by code_simp

theorem extractSections_never_throws_witness:
  "\<not> occurs_ci ''Summary'' ''hello'' \<and> \<not> occurs_ci ''Purpose'' ''hello''
   \<and> \<not> occurs_ci ''Impact'' ''hello'' \<and> \<not> occurs_ci ''Documentation'' ''hello''
   \<and> \<not> occurs_ci ''Key Changes'' ''hello'' \<and> \<not> occurs_ci ''Suggestions'' ''hello''
   \<and> extractSections ''hello'' = Inr no_sections"
  using extractSections_never_throws [of "''hello''"] hello_headingless by blast

text \<open>
  Texts with a heading and no end, and with a heading twice: extraction returns, with
  the section absent in the first and with the second heading inside the section in
  the second.
\<close>

lemma extractSections_truncated: "extractSections ''Summary: fixes'' = Inr no_sections"
  unfolding no_sections_def by code_simp

lemma extractSections_duplicated:
  "extractSections (''Summary: a'' @ [newline] @ ''Summary: b'' @ [newline]) =
     Inr \<lparr> summary = Some (''a'' @ [newline] @ ''Summary: b''), purpose = None, impact = None,
           documentation = None, keyChanges = None, suggestions = None \<rparr>"
  by code_simp

end
